theory Spec2Isabelle
  imports Complex_Main "HOL-Library.Multiset"
begin

section \<open>Neighborhood generation for large neighborhood search (cp_model_lns.cc)\<close>

text \<open>
  A shallow embedding of \<^verbatim>\<open>ortools/sat/cp_model_lns.cc\<close>. Conventions:
  \<^item> C++ \<^verbatim>\<open>int\<close> indices and \<^verbatim>\<open>int64\<close> values are HOL integers; the values are only
    copied, never computed with.
  \<^item> A failed \<^verbatim>\<open>CHECK\<close> is the result \<open>Inl CheckFailed\<close>. An access outside a vector or
    a repeated field is \<open>Inl OutOfRange\<close>, a \<^verbatim>\<open>uniform_int_distribution(a, b)\<close> with
    \<open>b < a\<close> is \<open>Inl InvalidRange\<close>, a \<^verbatim>\<open>resize\<close> to a negative \<^verbatim>\<open>int\<close> is
    \<open>Inl LengthError\<close>.
  \<^item> \<^verbatim>\<open>double difficulty\<close> is the real number that the double stands for. Each
    floating-point operation is the exact operation followed by \<open>round_double\<close>, the
    rounding to the nearest double with ties to even; the conversion of an \<^verbatim>\<open>int\<close> to
    \<^verbatim>\<open>double\<close> is exact and that of a vector size rounds. \<^verbatim>\<open>std::ceil\<close> of a double
    is the ceiling of its value, and its narrowing to \<^verbatim>\<open>int\<close> is \<open>Inl IntOverflow\<close> when
    the value does not fit into 32 bits. Infinities and NaN are not modelled; a product
    beyond the largest double stays finite and fails the narrowing.
  \<^item> The random engine is a parameter: a state type \<open>'r\<close>, the seeding function and
    the drawing function of \<^verbatim>\<open>uniform_int_distribution<int>\<close>. \<^verbatim>\<open>std::shuffle\<close> is the
    Fisher-Yates loop of the standard library, drawing on the same engine.
  \<^item> \<^verbatim>\<open>UsedVariables\<close> (cp_model_utils) and the constraint type are parameters.
\<close>

subsection \<open>Errors and checked vector access\<close>

datatype error = CheckFailed | OutOfRange | InvalidRange | LengthError | IntOverflow

text \<open>\<open>elt\<close> reads and \<open>put\<close> writes at an \<^verbatim>\<open>int\<close> index; the model calls them only
  at an index that \<open>in_range\<close> has accepted, and returns \<open>Inl OutOfRange\<close> otherwise.\<close>

definition in_range :: "'a list \<Rightarrow> int \<Rightarrow> bool" where
  "in_range xs i = (0 \<le> i \<and> i < int (length xs))"

definition elt :: "'a list \<Rightarrow> int \<Rightarrow> 'a" where
  "elt xs i = xs ! nat i"

definition put :: "'a list \<Rightarrow> int \<Rightarrow> 'a \<Rightarrow> 'a list" where
  "put xs i v = xs[nat i := v]"

subsection \<open>Double arithmetic\<close>

text \<open>Rounding of a real to the nearest integer, ties to even.\<close>

definition rne :: "real \<Rightarrow> int" where
  "rne q =
     (let f = \<lfloor>q\<rfloor>; r = q - of_int f
      in if r < 1 / 2 then f else if 1 / 2 < r then f + 1 else if even f then f else f + 1)"

text \<open>Rounding of a real to the nearest IEEE 754 binary64 number: 53 significant bits
  above \<open>2 powi (- 1022)\<close>, the spacing \<open>2 powi (- 1074)\<close> of the subnormal numbers
  below.\<close>

definition round_double :: "real \<Rightarrow> real" where
  "round_double x =
     (if x = 0 then 0
      else let e = max \<lfloor>log 2 \<bar>x\<bar>\<rfloor> (- 1022); ulp = 2 powi (e - 52)
           in sgn x * of_int (rne (\<bar>x\<bar> / ulp)) * ulp)"

text \<open>The initialisation of an \<^verbatim>\<open>int\<close> from the value of \<^verbatim>\<open>std::ceil\<close>.\<close>

definition narrow_int :: "int \<Rightarrow> error + int" where
  "narrow_int v =
     (if - 2147483648 \<le> v \<and> v \<le> 2147483647 then Inr v else Inl IntOverflow)"

subsection \<open>The protocol buffers\<close>

record IntegerVariableProto =
  name :: string
  domain :: "int list"

record PartialVariableAssignment =
  vars :: "int list"
  "values" :: "int list"

record 'c CpModelProto =
  variables :: "IntegerVariableProto list"
  constraints :: "'c list"
  search_strategy :: "int list list"
  solution_hint :: "PartialVariableAssignment option"

record CpSolverResponse =
  solution :: "int list"

subsection \<open>FixGivenPosition\<close>

text \<open>The loop over \<^verbatim>\<open>variables_to_fix\<close>: clear the domain, add the value twice.\<close>

fun fix_variables ::
  "int list \<Rightarrow> int list \<Rightarrow> IntegerVariableProto list \<Rightarrow> error + IntegerVariableProto list" where
  "fix_variables sol [] vs = Inr vs"
| "fix_variables sol (var # rest) vs =
     (if \<not> in_range vs var then Inl OutOfRange
      else if \<not> in_range sol var then Inl OutOfRange
      else fix_variables sol rest
             (put vs var ((elt vs var)\<lparr>domain := [] @ [elt sol var] @ [elt sol var]\<rparr>)))"

text \<open>One round of the hint loop: \<^verbatim>\<open>mutable_solution_hint()\<close> creates the message when
  it is absent, then \<^verbatim>\<open>add_vars\<close> and \<^verbatim>\<open>add_values\<close> append. The loop runs over the
  variable indices, which \<^verbatim>\<open>CHECK_EQ\<close> has made indices of the solution.\<close>

definition add_hint ::
  "int list \<Rightarrow> PartialVariableAssignment option \<Rightarrow> nat \<Rightarrow> PartialVariableAssignment option" where
  "add_hint sol h var =
     (let h0 = (case h of None \<Rightarrow> \<lparr>vars = [], values = []\<rparr> | Some x \<Rightarrow> x)
      in Some (h0\<lparr>vars := vars h0 @ [int var], values := values h0 @ [sol ! var]\<rparr>))"

definition FixGivenPosition ::
  "CpSolverResponse \<Rightarrow> int list \<Rightarrow> 'c CpModelProto \<Rightarrow> error + 'c CpModelProto" where
  "FixGivenPosition response variables_to_fix model =
     (if length (solution response) \<noteq> length (variables model) then Inl CheckFailed
      else case fix_variables (solution response) variables_to_fix (variables model) of
             Inl e \<Rightarrow> Inl e
           | Inr vs \<Rightarrow>
               Inr (model\<lparr>variables := vs,
                      solution_hint :=
                        foldl (add_hint (solution response)) None [0..<length vs]\<rparr>))"

subsection \<open>The random engine\<close>

text \<open>
  \<^verbatim>\<open>random_engine_t\<close> with \<^verbatim>\<open>random.seed(seed)\<close> and the draw of a
  \<^verbatim>\<open>std::uniform_int_distribution<int>(a, b)\<close>, which returns the number drawn and the
  engine's next state. Nothing is assumed of the numbers drawn: a number outside
  \<open>[a, b]\<close> shows as an access out of range where it is used as an index.
\<close>

record 'r random_engine_t =
  seed_engine :: "int \<Rightarrow> 'r"
  uniform_int :: "int \<Rightarrow> int \<Rightarrow> 'r \<Rightarrow> int \<times> 'r"

definition uniform_int_distribution ::
  "'r random_engine_t \<Rightarrow> int \<Rightarrow> int \<Rightarrow> 'r \<Rightarrow> error + int \<times> 'r" where
  "uniform_int_distribution E a b random =
     (if b < a then Inl InvalidRange else Inr (uniform_int E a b random))"

definition swap :: "'a list \<Rightarrow> int \<Rightarrow> int \<Rightarrow> 'a list" where
  "swap xs i j = put (put xs i (elt xs j)) j (elt xs i)"

text \<open>\<^verbatim>\<open>std::shuffle\<close>: for \<open>i = 1, ..., n - 1\<close>, swap the element at \<open>i\<close> with the
  one at a position drawn from \<open>[0, i]\<close>. The second argument counts the rounds left.\<close>

fun shuffle_from ::
  "'r random_engine_t \<Rightarrow> nat \<Rightarrow> int \<Rightarrow> int list \<Rightarrow> 'r \<Rightarrow> error + int list \<times> 'r" where
  "shuffle_from E 0 i xs random = Inr (xs, random)"
| "shuffle_from E (Suc k) i xs random =
     (case uniform_int_distribution E 0 i random of
        Inl e \<Rightarrow> Inl e
      | Inr (j, random') \<Rightarrow>
          if \<not> in_range xs i \<or> \<not> in_range xs j then Inl OutOfRange
          else shuffle_from E k (i + 1) (swap xs i j) random')"

definition shuffle :: "'r random_engine_t \<Rightarrow> int list \<Rightarrow> 'r \<Rightarrow> error + int list \<times> 'r" where
  "shuffle E xs random = shuffle_from E (length xs - 1) 1 xs random"

subsection \<open>The generator base class\<close>

text \<open>The members, named as in the source without the final underscore.\<close>

record 'c NeighborhoodGenerator =
  model_proto :: "'c CpModelProto"
  focus_on_decision_variables :: bool
  var_to_constraint :: "int list list"
  constraint_to_var :: "int list list"
  decision_variables_set :: "bool list"
  decision_variables :: "int list"

text \<open>The constructor's inner loop over \<^verbatim>\<open>UsedVariables(constraints(ct_index))\<close>. The two
  \<^verbatim>\<open>push_back\<close> come before the two \<^verbatim>\<open>CHECK\<close>, as in the source.\<close>

fun add_used_variables ::
  "nat \<Rightarrow> int \<Rightarrow> int list \<Rightarrow> int list list \<times> int list list
     \<Rightarrow> error + int list list \<times> int list list" where
  "add_used_variables n ct_index [] (v2c, c2v) = Inr (v2c, c2v)"
| "add_used_variables n ct_index (var # rest) (v2c, c2v) =
     (if \<not> in_range v2c var then Inl OutOfRange
      else if \<not> in_range c2v ct_index then Inl OutOfRange
      else if \<not> 0 \<le> var then Inl CheckFailed
      else if \<not> var < int n then Inl CheckFailed
      else add_used_variables n ct_index rest
             (put v2c var (elt v2c var @ [ct_index]), put c2v ct_index (elt c2v ct_index @ [var])))"

fun add_constraints ::
  "('c \<Rightarrow> int list) \<Rightarrow> nat \<Rightarrow> 'c list \<Rightarrow> int \<Rightarrow> int list list \<times> int list list
     \<Rightarrow> error + int list list \<times> int list list" where
  "add_constraints UsedVariables n [] ct_index G = Inr G"
| "add_constraints UsedVariables n (c # cs) ct_index G =
     (case add_used_variables n ct_index (UsedVariables c) G of
        Inl e \<Rightarrow> Inl e
      | Inr G' \<Rightarrow> add_constraints UsedVariables n cs (ct_index + 1) G')"

text \<open>The loops over the search strategies and their variables.\<close>

fun add_decision_variables ::
  "int list \<Rightarrow> bool list \<times> int list \<Rightarrow> error + bool list \<times> int list" where
  "add_decision_variables [] (dset, dvars) = Inr (dset, dvars)"
| "add_decision_variables (var # rest) (dset, dvars) =
     (if \<not> in_range dset var then Inl OutOfRange
      else if \<not> elt dset var
        then add_decision_variables rest (put dset var True, dvars @ [var])
      else add_decision_variables rest (dset, dvars))"

fun add_search_strategies ::
  "int list list \<Rightarrow> bool list \<times> int list \<Rightarrow> error + bool list \<times> int list" where
  "add_search_strategies [] D = Inr D"
| "add_search_strategies (strategy # rest) D =
     (case add_decision_variables strategy D of
        Inl e \<Rightarrow> Inl e
      | Inr D' \<Rightarrow> add_search_strategies rest D')"

definition NeighborhoodGenerator_new ::
  "('c \<Rightarrow> int list) \<Rightarrow> 'c CpModelProto \<Rightarrow> bool \<Rightarrow> error + 'c NeighborhoodGenerator" where
  "NeighborhoodGenerator_new UsedVariables model focus =
     (let n = length (variables model) in
      case add_constraints UsedVariables n (constraints model) 0
             (replicate n [], replicate (length (constraints model)) []) of
        Inl e \<Rightarrow> Inl e
      | Inr (v2c, c2v) \<Rightarrow>
          (case add_search_strategies (search_strategy model)
                  (if length (search_strategy model) > 0 then replicate n False else [], []) of
             Inl e \<Rightarrow> Inl e
           | Inr (dset, dvars) \<Rightarrow>
               Inr \<lparr>model_proto = model,
                    focus_on_decision_variables =
                      (if dvars = [] then False else focus),
                    var_to_constraint = v2c,
                    constraint_to_var = c2v,
                    decision_variables_set = dset,
                    decision_variables = dvars\<rparr>))"

definition IsActive :: "'c NeighborhoodGenerator \<Rightarrow> int \<Rightarrow> error + bool" where
  "IsActive g var =
     (if \<not> focus_on_decision_variables g then Inr True
      else if \<not> in_range (decision_variables_set g) var then Inl OutOfRange
      else Inr (elt (decision_variables_set g) var))"

subsection \<open>RelaxGivenVariables\<close>

fun collect_fixed :: "bool list \<Rightarrow> int list \<Rightarrow> int list \<Rightarrow> error + int list" where
  "collect_fixed relaxed_variables [] fixed_variables = Inr fixed_variables"
| "collect_fixed relaxed_variables (i # rest) fixed_variables =
     (if \<not> in_range relaxed_variables i then Inl OutOfRange
      else collect_fixed relaxed_variables rest
             (if \<not> elt relaxed_variables i then fixed_variables @ [i] else fixed_variables))"

text \<open>The vector \<^verbatim>\<open>fixed_variables\<close> that RelaxGivenVariables hands to FixGivenPosition.\<close>

definition fixed_variables_of :: "'c NeighborhoodGenerator \<Rightarrow> bool list \<Rightarrow> error + int list" where
  "fixed_variables_of g relaxed_variables =
     (if focus_on_decision_variables g
      then collect_fixed relaxed_variables (decision_variables g) []
      else collect_fixed relaxed_variables
             (map int [0..<length (variables (model_proto g))]) [])"

definition RelaxGivenVariables ::
  "'c NeighborhoodGenerator \<Rightarrow> CpSolverResponse \<Rightarrow> bool list \<Rightarrow> error + 'c CpModelProto" where
  "RelaxGivenVariables g initial_solution relaxed_variables =
     (case fixed_variables_of g relaxed_variables of
        Inl e \<Rightarrow> Inl e
      | Inr fixed_variables \<Rightarrow> FixGivenPosition initial_solution fixed_variables (model_proto g))"

subsection \<open>SimpleNeighborhoodGenerator::Generate\<close>

text \<open>\<^verbatim>\<open>std::vector<int>::resize\<close> with an \<^verbatim>\<open>int\<close> argument: new entries are zero.\<close>

definition resize :: "int list \<Rightarrow> int \<Rightarrow> error + int list" where
  "resize xs target_size =
     (if target_size < 0 then Inl LengthError
      else Inr (take (nat target_size) xs @ replicate (nat target_size - length xs) 0))"

text \<open>The vector \<^verbatim>\<open>fixed_variables\<close> that Generate hands to FixGivenPosition. In
  \<^verbatim>\<open>std::ceil((1.0 - difficulty) * fixed_variables.size())\<close> the difference, the size
  and the product are each rounded to a double.\<close>

definition Simple_fixed_variables ::
  "'r random_engine_t \<Rightarrow> 'c NeighborhoodGenerator \<Rightarrow> int \<Rightarrow> real \<Rightarrow> error + int list" where
  "Simple_fixed_variables E g seed difficulty =
     (let random = seed_engine E seed;
          fixed_variables =
            (if focus_on_decision_variables g then decision_variables g
             else map int [0..<length (variables (model_proto g))])
      in case shuffle E fixed_variables random of
           Inl e \<Rightarrow> Inl e
         | Inr (shuffled, random') \<Rightarrow>
             (case narrow_int
                     \<lceil>round_double (round_double (1 - difficulty)
                                     * round_double (real (length shuffled)))\<rceil> of
                Inl e \<Rightarrow> Inl e
              | Inr target \<Rightarrow> resize shuffled target))"

definition Simple_Generate ::
  "'r random_engine_t \<Rightarrow> 'c NeighborhoodGenerator \<Rightarrow> CpSolverResponse \<Rightarrow> int \<Rightarrow> real
     \<Rightarrow> error + 'c CpModelProto" where
  "Simple_Generate E g initial_solution seed difficulty =
     (case Simple_fixed_variables E g seed difficulty of
        Inl e \<Rightarrow> Inl e
      | Inr fixed_variables \<Rightarrow> FixGivenPosition initial_solution fixed_variables (model_proto g))"

subsection \<open>VariableGraphNeighborhoodGenerator::Generate\<close>

definition num_active_vars :: "'c NeighborhoodGenerator \<Rightarrow> int" where
  "num_active_vars g =
     (if focus_on_decision_variables g then int (length (decision_variables g))
      else int (length (variables (model_proto g))))"

text \<open>\<^verbatim>\<open>const int target_size = std::ceil(difficulty * num_active_vars)\<close>: the
  \<^verbatim>\<open>int\<close> is converted exactly, the product is rounded to a double, and the ceiling of
  that double is narrowed to \<^verbatim>\<open>int\<close>.\<close>

definition target_size :: "'c NeighborhoodGenerator \<Rightarrow> real \<Rightarrow> error + int" where
  "target_size g difficulty =
     narrow_int \<lceil>round_double (difficulty * real_of_int (num_active_vars g))\<rceil>"

text \<open>The two loops that collect, for one visited variable, the variables of its
  constraints that are not used yet: the state is \<^verbatim>\<open>used_variables\<close>,
  \<^verbatim>\<open>random_variables\<close> and the local count \<^verbatim>\<open>num_active_vars\<close>.\<close>

fun collect_vars ::
  "'c NeighborhoodGenerator \<Rightarrow> int list \<Rightarrow> bool list \<times> int list \<times> nat
     \<Rightarrow> error + bool list \<times> int list \<times> nat" where
  "collect_vars g [] st = Inr st"
| "collect_vars g (var # rest) (used, random_variables, num_active) =
     (if \<not> in_range used var then Inl OutOfRange
      else if elt used var then collect_vars g rest (used, random_variables, num_active)
      else case IsActive g var of
             Inl e \<Rightarrow> Inl e
           | Inr active \<Rightarrow>
               collect_vars g rest
                 (put used var True, random_variables @ [var],
                  if active then num_active + 1 else num_active))"

fun collect_constraints ::
  "'c NeighborhoodGenerator \<Rightarrow> int list \<Rightarrow> bool list \<times> int list \<times> nat
     \<Rightarrow> error + bool list \<times> int list \<times> nat" where
  "collect_constraints g [] st = Inr st"
| "collect_constraints g (ct # rest) st =
     (if \<not> in_range (constraint_to_var g) ct then Inl OutOfRange
      else case collect_vars g (elt (constraint_to_var g) ct) st of
             Inl e \<Rightarrow> Inl e
           | Inr st' \<Rightarrow> collect_constraints g rest st')"

text \<open>The loop over \<^verbatim>\<open>to_add\<close>; it is left as soon as the target is reached.\<close>

fun add_random_variables ::
  "'c NeighborhoodGenerator \<Rightarrow> int \<Rightarrow> int list \<Rightarrow> int list \<times> int list
     \<Rightarrow> error + int list \<times> int list" where
  "add_random_variables g target [] (visited, relaxed) = Inr (visited, relaxed)"
| "add_random_variables g target (to_add # rest) (visited, relaxed) =
     (case IsActive g to_add of
        Inl e \<Rightarrow> Inl e
      | Inr active \<Rightarrow>
          (let visited' = visited @ [to_add];
               relaxed' = (if active then relaxed @ [to_add] else relaxed)
           in if int (length relaxed') \<ge> target then Inr (visited', relaxed')
              else add_random_variables g target rest (visited', relaxed')))"

datatype ('s, 'a) step = Done 'a | Next 's

text \<open>One round of the loop over \<^verbatim>\<open>visited_variables\<close>. The state is the index \<open>i\<close>,
  \<^verbatim>\<open>used_variables\<close>, \<^verbatim>\<open>visited_variables\<close>, \<^verbatim>\<open>relaxed_variables\<close> and the engine; the
  loop ends with \<^verbatim>\<open>relaxed_variables\<close>.\<close>

type_synonym 'r vg_state = "nat \<times> bool list \<times> int list \<times> int list \<times> 'r"

fun vg_step ::
  "'r random_engine_t \<Rightarrow> 'c NeighborhoodGenerator \<Rightarrow> int \<Rightarrow> 'r vg_state
     \<Rightarrow> error + ('r vg_state, int list) step" where
  "vg_step E g target (i, used, visited, relaxed, random) =
     (if \<not> i < length visited then Inr (Done relaxed)
      else if \<not> in_range (var_to_constraint g) (visited ! i) then Inl OutOfRange
      else case collect_constraints g (elt (var_to_constraint g) (visited ! i)) (used, [], 0) of
             Inl e \<Rightarrow> Inl e
           | Inr (used', random_variables, num_active) \<Rightarrow>
               (case (if int num_active + int (length relaxed) \<ge> target
                      then shuffle E random_variables random
                      else Inr (random_variables, random)) of
                  Inl e \<Rightarrow> Inl e
                | Inr (random_variables', random') \<Rightarrow>
                    (case add_random_variables g target random_variables' (visited, relaxed) of
                       Inl e \<Rightarrow> Inl e
                     | Inr (visited', relaxed') \<Rightarrow>
                         if int (length relaxed') \<ge> target then Inr (Done relaxed')
                         else Inr (Next (i + 1, used', visited', relaxed', random')))))"

function vg_loop ::
  "'r random_engine_t \<Rightarrow> 'c NeighborhoodGenerator \<Rightarrow> int \<Rightarrow> 'r vg_state \<Rightarrow> error + int list" where
  "vg_loop E g target st =
     (case vg_step E g target st of
        Inl e \<Rightarrow> Inl e
      | Inr (Done relaxed) \<Rightarrow> Inr relaxed
      | Inr (Next st') \<Rightarrow> vg_loop E g target st')"
  by pat_completeness auto

text \<open>The sequence \<^verbatim>\<open>relaxed_variables\<close> at the end of the walk.\<close>

definition VariableGraph_relaxed ::
  "'r random_engine_t \<Rightarrow> 'c NeighborhoodGenerator \<Rightarrow> int \<Rightarrow> int \<Rightarrow> error + int list" where
  "VariableGraph_relaxed E g seed target =
     (let random = seed_engine E seed;
          num_model_vars = length (variables (model_proto g));
          used_variables = replicate num_model_vars False
      in case uniform_int_distribution E 0 (num_active_vars g - 1) random of
           Inl e \<Rightarrow> Inl e
         | Inr (x, random') \<Rightarrow>
             if focus_on_decision_variables g \<and> \<not> in_range (decision_variables g) x
             then Inl OutOfRange
             else let first_var = (if focus_on_decision_variables g
                                   then elt (decision_variables g) x else x)
                  in if \<not> in_range used_variables first_var then Inl OutOfRange
                     else vg_loop E g target
                            (0, put used_variables first_var True, [first_var], [first_var],
                             random'))"

text \<open>\<^verbatim>\<open>used_variables.assign(num_model_vars, false)\<close>, then the loop that sets the
  entries of the relaxed variables.\<close>

fun mark_variables :: "int list \<Rightarrow> bool list \<Rightarrow> error + bool list" where
  "mark_variables [] used = Inr used"
| "mark_variables (var # rest) used =
     (if \<not> in_range used var then Inl OutOfRange
      else mark_variables rest (put used var True))"

definition VariableGraph_Generate ::
  "'r random_engine_t \<Rightarrow> 'c NeighborhoodGenerator \<Rightarrow> CpSolverResponse \<Rightarrow> int \<Rightarrow> real
     \<Rightarrow> error + 'c CpModelProto" where
  "VariableGraph_Generate E g initial_solution seed difficulty =
     (case target_size g difficulty of
        Inl e \<Rightarrow> Inl e
      | Inr target \<Rightarrow>
          if target = num_active_vars g then Inr (model_proto g)
          else if \<not> target > 0 then Inl CheckFailed
          else case VariableGraph_relaxed E g seed target of
                 Inl e \<Rightarrow> Inl e
               | Inr relaxed_variables \<Rightarrow>
                   (case mark_variables relaxed_variables
                           (replicate (length (variables (model_proto g))) False) of
                      Inl e \<Rightarrow> Inl e
                    | Inr used_variables \<Rightarrow>
                        RelaxGivenVariables g initial_solution used_variables))"

subsection \<open>ConstraintGraphNeighborhoodGenerator::Generate\<close>

text \<open>The loop that queues the constraints of a newly visited variable.\<close>

fun add_next_constraints ::
  "int list \<Rightarrow> bool list \<times> int list \<Rightarrow> error + bool list \<times> int list" where
  "add_next_constraints [] (added, next_constraints) = Inr (added, next_constraints)"
| "add_next_constraints (ct # rest) (added, next_constraints) =
     (if \<not> in_range added ct then Inl OutOfRange
      else if elt added ct then add_next_constraints rest (added, next_constraints)
      else add_next_constraints rest (put added ct True, next_constraints @ [ct]))"

text \<open>The loop over the shuffled variables of the constraint picked. The state is
  \<^verbatim>\<open>visited_variables\<close>, \<^verbatim>\<open>added_constraints\<close>, \<^verbatim>\<open>next_constraints\<close> and
  \<^verbatim>\<open>num_relaxed_variables\<close>.\<close>

type_synonym cg_vars = "bool list \<times> bool list \<times> int list \<times> int"

fun visit_variables ::
  "'c NeighborhoodGenerator \<Rightarrow> int \<Rightarrow> int list \<Rightarrow> cg_vars \<Rightarrow> error + cg_vars" where
  "visit_variables g target [] st = Inr st"
| "visit_variables g target (var # rest) (visited, added, next_constraints, num_relaxed) =
     (if \<not> in_range visited var then Inl OutOfRange
      else if elt visited var
        then visit_variables g target rest (visited, added, next_constraints, num_relaxed)
      else case IsActive g var of
             Inl e \<Rightarrow> Inl e
           | Inr active \<Rightarrow>
               (let visited' = put visited var True;
                    num_relaxed' = (if active then num_relaxed + 1 else num_relaxed)
                in if num_relaxed' = target
                   then Inr (visited', added, next_constraints, num_relaxed')
                   else if \<not> in_range (var_to_constraint g) var then Inl OutOfRange
                   else case add_next_constraints (elt (var_to_constraint g) var)
                               (added, next_constraints) of
                          Inl e \<Rightarrow> Inl e
                        | Inr (added', next_constraints') \<Rightarrow>
                            visit_variables g target rest
                              (visited', added', next_constraints', num_relaxed')))"

text \<open>One round of the \<^verbatim>\<open>while\<close> loop; the loop ends with \<^verbatim>\<open>visited_variables\<close>.
  \<^verbatim>\<open>CHECK_LT(contraint_index, constraint_to_var_.size())\<close> compares an \<^verbatim>\<open>int\<close> with a
  \<^verbatim>\<open>size_t\<close>, that is as unsigned numbers, so a negative index fails it too.\<close>

type_synonym 'r cg_state = "cg_vars \<times> 'r"

fun cg_step ::
  "'r random_engine_t \<Rightarrow> 'c NeighborhoodGenerator \<Rightarrow> int \<Rightarrow> 'r cg_state
     \<Rightarrow> error + ('r cg_state, bool list) step" where
  "cg_step E g target ((visited, added, next_constraints, num_relaxed), random) =
     (if \<not> num_relaxed < target then Inr (Done visited)
      else if next_constraints = [] then Inr (Done visited)
      else case uniform_int_distribution E 0 (int (length next_constraints) - 1) random of
             Inl e \<Rightarrow> Inl e
           | Inr (i, random1) \<Rightarrow>
               if \<not> in_range next_constraints i then Inl OutOfRange
               else let contraint_index = elt next_constraints i;
                        next_constraints' =
                          butlast (swap next_constraints i (int (length next_constraints) - 1))
                    in if \<not> in_range (constraint_to_var g) contraint_index
                       then Inl CheckFailed
                       else case shuffle E (elt (constraint_to_var g) contraint_index) random1 of
                              Inl e \<Rightarrow> Inl e
                            | Inr (random_variables, random2) \<Rightarrow>
                                (case visit_variables g target random_variables
                                        (visited, added, next_constraints', num_relaxed) of
                                   Inl e \<Rightarrow> Inl e
                                 | Inr st' \<Rightarrow> Inr (Next (st', random2))))"

function cg_loop ::
  "'r random_engine_t \<Rightarrow> 'c NeighborhoodGenerator \<Rightarrow> int \<Rightarrow> 'r cg_state \<Rightarrow> error + bool list" where
  "cg_loop E g target st =
     (case cg_step E g target st of
        Inl e \<Rightarrow> Inl e
      | Inr (Done visited) \<Rightarrow> Inr visited
      | Inr (Next st') \<Rightarrow> cg_loop E g target st')"
  by pat_completeness auto

text \<open>The mask \<^verbatim>\<open>visited_variables\<close> at the end of the walk.\<close>

definition ConstraintGraph_visited ::
  "'r random_engine_t \<Rightarrow> 'c NeighborhoodGenerator \<Rightarrow> int \<Rightarrow> int \<Rightarrow> error + bool list" where
  "ConstraintGraph_visited E g seed target =
     (let random = seed_engine E seed;
          num_model_vars = length (variables (model_proto g));
          visited_variables = replicate num_model_vars False;
          added_constraints = replicate (length (constraint_to_var g)) False
      in case uniform_int_distribution E 0 (int (length (constraint_to_var g)) - 1) random of
           Inl e \<Rightarrow> Inl e
         | Inr (start, random') \<Rightarrow>
             if \<not> in_range added_constraints start then Inl OutOfRange
             else cg_loop E g target
                    ((visited_variables, put added_constraints start True, [start], 0),
                     random'))"

definition ConstraintGraph_Generate ::
  "'r random_engine_t \<Rightarrow> 'c NeighborhoodGenerator \<Rightarrow> CpSolverResponse \<Rightarrow> int \<Rightarrow> real
     \<Rightarrow> error + 'c CpModelProto" where
  "ConstraintGraph_Generate E g initial_solution seed difficulty =
     (case target_size g difficulty of
        Inl e \<Rightarrow> Inl e
      | Inr target \<Rightarrow>
          if target = num_active_vars g then Inr (model_proto g)
          else if \<not> target > 0 then Inl CheckFailed
          else case ConstraintGraph_visited E g seed target of
                 Inl e \<Rightarrow> Inl e
               | Inr visited_variables \<Rightarrow>
                   RelaxGivenVariables g initial_solution visited_variables)"

subsection \<open>Measures and well-formed generators\<close>

text \<open>The number of entries of a mask that are still false.\<close>

definition unused :: "bool list \<Rightarrow> nat" where
  "unused used = count (mset used) False"

text \<open>A random engine keeps the contract of \<^verbatim>\<open>uniform_int_distribution\<close> when every
  number it draws from a non-empty range \<open>[a, b]\<close> lies in that range.\<close>

definition engine_ok :: "'r random_engine_t \<Rightarrow> bool" where
  "engine_ok E = (\<forall>a b random. a \<le> b \<longrightarrow>
      a \<le> fst (uniform_int E a b random) \<and> fst (uniform_int E a b random) \<le> b)"

text \<open>What the constructor establishes: every constraint listed for a variable is a
  constraint index and lists that variable, every variable listed for a constraint is a
  variable index; the decision variables are pairwise distinct and are the indices set
  in \<^verbatim>\<open>decision_variables_set_\<close>; under focus that mask has one entry per variable
  and there is a decision variable.\<close>

definition graph_ok :: "int list list \<times> int list list \<Rightarrow> bool" where
  "graph_ok G = (case G of (v2c, c2v) \<Rightarrow>
     (\<forall>v ct. in_range v2c v \<and> ct \<in> set (elt v2c v) \<longrightarrow> in_range c2v ct \<and> v \<in> set (elt c2v ct))
     \<and> (\<forall>ct v. in_range c2v ct \<and> v \<in> set (elt c2v ct) \<longrightarrow> in_range v2c v))"

definition decisions_ok :: "bool list \<times> int list \<Rightarrow> bool" where
  "decisions_ok D = (case D of (dset, dvars) \<Rightarrow>
     distinct dvars \<and> (\<forall>v. v \<in> set dvars \<longleftrightarrow> in_range dset v \<and> elt dset v))"

definition wf_generator :: "'c NeighborhoodGenerator \<Rightarrow> bool" where
  "wf_generator g =
     (length (var_to_constraint g) = length (variables (model_proto g))
      \<and> graph_ok (var_to_constraint g, constraint_to_var g)
      \<and> decisions_ok (decision_variables_set g, decision_variables g)
      \<and> (focus_on_decision_variables g
            \<longrightarrow> length (decision_variables_set g) = length (variables (model_proto g))
              \<and> decision_variables g \<noteq> []))"

text \<open>The variables within reach of a start variable \<open>s\<close>: each step goes from a
  variable to a variable of a constraint that holds both. The constraints within reach
  of a start constraint \<open>c0\<close>: each step goes from a constraint to a constraint that
  shares a variable with it. Both are read off \<^verbatim>\<open>constraint_to_var_\<close>.\<close>

inductive reachable_var :: "int list list \<Rightarrow> int \<Rightarrow> int \<Rightarrow> bool"
  for c2v :: "int list list" and s :: int where
  start: "reachable_var c2v s s"
| share: "reachable_var c2v s u \<Longrightarrow> in_range c2v ct \<Longrightarrow> u \<in> set (elt c2v ct)
            \<Longrightarrow> v \<in> set (elt c2v ct) \<Longrightarrow> reachable_var c2v s v"

inductive reachable_constraint :: "int list list \<Rightarrow> int \<Rightarrow> int \<Rightarrow> bool"
  for c2v :: "int list list" and c0 :: int where
  start: "reachable_constraint c2v c0 c0"
| share: "reachable_constraint c2v c0 c \<Longrightarrow> in_range c2v c \<Longrightarrow> in_range c2v c'
            \<Longrightarrow> v \<in> set (elt c2v c) \<Longrightarrow> v \<in> set (elt c2v c')
            \<Longrightarrow> reachable_constraint c2v c0 c'"

code_pred reachable_var .

code_pred reachable_constraint .

text \<open>The number of visited variables that count towards the target size, and the
  invariant of the Constraint-graph walk started at the constraint \<open>c0\<close>: every
  queued constraint is within reach of \<open>c0\<close>, every visited variable lies in a
  constraint within reach, and \<^verbatim>\<open>num_relaxed_variables\<close> counts the visited
  variables that are active.\<close>

definition relaxed_count :: "'c NeighborhoodGenerator \<Rightarrow> bool list \<Rightarrow> nat" where
  "relaxed_count g visited =
     length (filter (\<lambda>v. elt visited v \<and> IsActive g v = Inr True)
               (map int [0..<length visited]))"

definition cg_reached :: "'c NeighborhoodGenerator \<Rightarrow> int \<Rightarrow> bool list \<Rightarrow> bool" where
  "cg_reached g c0 visited =
     (\<forall>v. in_range visited v \<and> elt visited v \<longrightarrow>
        (\<exists>c. reachable_constraint (constraint_to_var g) c0 c
           \<and> in_range (constraint_to_var g) c \<and> v \<in> set (elt (constraint_to_var g) c)))"

definition cg_invariant ::
  "'c NeighborhoodGenerator \<Rightarrow> int \<Rightarrow> int \<Rightarrow> 'r cg_state \<Rightarrow> bool" where
  "cg_invariant g c0 t st =
     (case st of ((visited, added, next_constraints, num_relaxed), random) \<Rightarrow>
        length visited = length (variables (model_proto g))
        \<and> (\<forall>c\<in>set next_constraints. reachable_constraint (constraint_to_var g) c0 c)
        \<and> cg_reached g c0 visited
        \<and> num_relaxed = int (relaxed_count g visited) \<and> num_relaxed \<le> t)"

text \<open>What keeps every access of the Constraint-graph walk in range: the two masks
  have the lengths of the adjacency vectors and every queued constraint is a constraint
  index.\<close>

definition cg_safe :: "'c NeighborhoodGenerator \<Rightarrow> 'r cg_state \<Rightarrow> bool" where
  "cg_safe g st =
     (case st of ((visited, added, next_constraints, num_relaxed), random) \<Rightarrow>
        length visited = length (var_to_constraint g)
        \<and> length added = length (constraint_to_var g)
        \<and> (\<forall>c\<in>set next_constraints. in_range (constraint_to_var g) c))"

subsection \<open>Concrete inputs\<close>

text \<open>An engine whose state counts the draws; the draw from \<open>[a, b]\<close> in state \<open>k\<close> is
  \<open>a + k mod (b - a + 1)\<close>.\<close>

definition counting_engine :: "nat random_engine_t" where
  "counting_engine =
     \<lparr>seed_engine = (\<lambda>seed. nat \<bar>seed\<bar>),
      uniform_int = (\<lambda>a b k. (a + int k mod (b - a + 1), Suc k))\<rparr>"

text \<open>The scenario of the specification: five variables, the constraints \<open>{0, 1}\<close>,
  \<open>{1, 2}\<close> and \<open>{3, 4}\<close>, the incumbent \<open>[1, 2, 3, 4, 5]\<close>. A constraint is the list of
  its variables.\<close>

definition scenario_model :: "int list CpModelProto" where
  "scenario_model =
     \<lparr>variables = replicate 5 \<lparr>name = [], domain = [0, 10]\<rparr>,
      constraints = [[0, 1], [1, 2], [3, 4]],
      search_strategy = [],
      solution_hint = None\<rparr>"

definition scenario_solution :: CpSolverResponse where
  "scenario_solution = \<lparr>solution = [1, 2, 3, 4, 5]\<rparr>"

definition scenario_generator :: "int list NeighborhoodGenerator" where
  "scenario_generator =
     \<lparr>model_proto = scenario_model,
      focus_on_decision_variables = False,
      var_to_constraint = [[0], [0, 1], [1], [2], [2]],
      constraint_to_var = [[0, 1], [1, 2], [3, 4]],
      decision_variables_set = [],
      decision_variables = []\<rparr>"

text \<open>Three variables in one constraint, of which the second and the third are
  decision variables.\<close>

definition focus_model :: "int list CpModelProto" where
  "focus_model =
     \<lparr>variables = replicate 3 \<lparr>name = [], domain = [0, 10]\<rparr>,
      constraints = [[0, 1, 2]],
      search_strategy = [[1, 2]],
      solution_hint = None\<rparr>"

definition focus_solution :: CpSolverResponse where
  "focus_solution = \<lparr>solution = [7, 8, 9]\<rparr>"

definition focus_generator :: "int list NeighborhoodGenerator" where
  "focus_generator =
     \<lparr>model_proto = focus_model,
      focus_on_decision_variables = True,
      var_to_constraint = [[0], [0], [0]],
      constraint_to_var = [[0, 1, 2]],
      decision_variables_set = [False, True, True],
      decision_variables = [1, 2]\<rparr>"

text \<open>Two variables and no constraint.\<close>

definition unconstrained_model :: "int list CpModelProto" where
  "unconstrained_model =
     \<lparr>variables = replicate 2 \<lparr>name = [], domain = [0, 10]\<rparr>,
      constraints = [],
      search_strategy = [],
      solution_hint = None\<rparr>"

definition unconstrained_generator :: "int list NeighborhoodGenerator" where
  "unconstrained_generator =
     \<lparr>model_proto = unconstrained_model,
      focus_on_decision_variables = False,
      var_to_constraint = [[], []],
      constraint_to_var = [],
      decision_variables_set = [],
      decision_variables = []\<rparr>"

text \<open>Twenty-five variables and no constraint, with the incumbent \<open>100, \<dots>, 124\<close>.\<close>

definition wide_model :: "int list CpModelProto" where
  "wide_model =
     \<lparr>variables = replicate 25 \<lparr>name = [], domain = [0, 1000]\<rparr>,
      constraints = [],
      search_strategy = [],
      solution_hint = None\<rparr>"

definition wide_solution :: CpSolverResponse where
  "wide_solution = \<lparr>solution = map int [100..<125]\<rparr>"

definition wide_generator :: "int list NeighborhoodGenerator" where
  "wide_generator =
     \<lparr>model_proto = wide_model,
      focus_on_decision_variables = False,
      var_to_constraint = replicate 25 [],
      constraint_to_var = [],
      decision_variables_set = [],
      decision_variables = []\<rparr>"

section \<open>Properties of FixGivenPosition\<close>

lemma in_range_put [simp]: "in_range (put xs i v) j = in_range xs j"
  by (simp add: in_range_def put_def)

lemma length_put [simp]: "length (put xs i v) = length xs"
  by (simp add: put_def)

lemma in_range_nat: "in_range xs i \<Longrightarrow> nat i < length xs"
  by (simp add: in_range_def nat_less_iff)

lemma elt_put_same [simp]: "in_range xs i \<Longrightarrow> elt (put xs i v) i = v"
  by (simp add: elt_def put_def in_range_nat)

lemma elt_put_other: "0 \<le> i \<Longrightarrow> 0 \<le> j \<Longrightarrow> i \<noteq> j \<Longrightarrow> elt (put xs i v) j = elt xs j"
  by (simp add: elt_def put_def)

lemma fix_variables_ok:
  "\<forall>v\<in>set fs. in_range vs v \<and> in_range sol v \<Longrightarrow> \<exists>vs'. fix_variables sol fs vs = Inr vs'"
  by (induction fs arbitrary: vs) auto

lemma fix_variables_length:
  "fix_variables sol fs vs = Inr vs' \<Longrightarrow> length vs' = length vs"
  by (induction fs arbitrary: vs) (auto split: if_splits)

lemma fix_variables_other:
  "fix_variables sol fs vs = Inr vs' \<Longrightarrow> v \<notin> set fs \<Longrightarrow> in_range vs v \<Longrightarrow> elt vs' v = elt vs v"
proof (induction fs arbitrary: vs)
  case Nil
  then show ?case by simp
next
  case (Cons f fs)
  from Cons.prems have neq: "v \<noteq> f" and f: "in_range vs f" "in_range sol f"
    and rest: "fix_variables sol fs
        (put vs f ((elt vs f)\<lparr>domain := [elt sol f, elt sol f]\<rparr>)) = Inr vs'"
    by (auto split: if_splits)
  from Cons.prems have "v \<notin> set fs" by simp
  from Cons.IH [OF rest this] Cons.prems(3) f(1) neq show ?case
    by (simp add: elt_put_other in_range_def)
qed

lemma fix_variables_fixed:
  "fix_variables sol fs vs = Inr vs' \<Longrightarrow> v \<in> set fs \<Longrightarrow> domain (elt vs' v) = [elt sol v, elt sol v]"
proof (induction fs arbitrary: vs)
  case Nil
  then show ?case by simp
next
  case (Cons f fs)
  show ?case
  proof (cases "v \<in> set fs")
    case True
    with Cons show ?thesis by (auto split: if_splits)
  next
    case False
    with Cons.prems have [simp]: "f = v" by simp
    from Cons.prems have rng: "in_range vs v" and
      rest: "fix_variables sol fs (put vs v ((elt vs v)\<lparr>domain := [elt sol v, elt sol v]\<rparr>)) = Inr vs'"
      by (auto split: if_splits)
    from fix_variables_other [OF rest False] rng show ?thesis
      by simp
  qed
qed

lemma foldl_add_hint:
  "foldl (add_hint sol) None [0..<n] =
     (if n = 0 then None else Some \<lparr>vars = map int [0..<n], values = take n sol\<rparr>)"
  if "n \<le> length sol"
  using that
proof (induction n)
  case 0
  then show ?case by simp
next
  case (Suc n)
  then show ?case
    by (simp add: add_hint_def take_Suc_conv_app_nth)
qed

lemma FixGivenPosition_ok:
  assumes "length (solution response) = length (variables model)"
    and "\<forall>v\<in>set variables_to_fix. in_range (variables model) v"
  shows "\<exists>m. FixGivenPosition response variables_to_fix model = Inr m"
proof -
  from assms have "\<forall>v\<in>set variables_to_fix.
      in_range (variables model) v \<and> in_range (solution response) v"
    by (simp add: in_range_def)
  from fix_variables_ok [OF this] assms(1) show ?thesis
    by (auto simp: FixGivenPosition_def)
qed

lemma FixGivenPosition_props:
  assumes "length (solution response) = length (variables model)"
    and "\<forall>v\<in>set variables_to_fix. in_range (variables model) v"
  shows "\<exists>m. FixGivenPosition response variables_to_fix model = Inr m
           \<and> length (variables m) = length (variables model)
           \<and> (\<forall>v\<in>set variables_to_fix.
                 domain (elt (variables m) v) = [elt (solution response) v, elt (solution response) v])
           \<and> (\<forall>v. in_range (variables model) v \<and> v \<notin> set variables_to_fix
                 \<longrightarrow> elt (variables m) v = elt (variables model) v)
           \<and> solution_hint m =
               (if variables model = [] then None
                else Some \<lparr>vars = map int [0..<length (variables model)],
                           values = solution response\<rparr>)
           \<and> constraints m = constraints model
           \<and> search_strategy m = search_strategy model"
proof -
  let ?sol = "solution response" and ?vs = "variables model"
  from assms have "\<forall>v\<in>set variables_to_fix. in_range ?vs v \<and> in_range ?sol v"
    by (simp add: in_range_def)
  from fix_variables_ok [OF this] obtain vs'
    where fx: "fix_variables ?sol variables_to_fix ?vs = Inr vs'" ..
  have len: "length vs' = length ?vs"
    by (rule fix_variables_length [OF fx])
  let ?m = "model\<lparr>variables := vs',
              solution_hint := foldl (add_hint ?sol) None [0..<length vs']\<rparr>"
  have res: "FixGivenPosition response variables_to_fix model = Inr ?m"
    using assms(1) fx by (simp add: FixGivenPosition_def)
  have hint: "solution_hint ?m =
      (if ?vs = [] then None else Some \<lparr>vars = map int [0..<length ?vs], values = ?sol\<rparr>)"
    using foldl_add_hint [of "length ?vs" ?sol] assms(1) len by simp
  have fixed: "\<forall>v\<in>set variables_to_fix. domain (elt (variables ?m) v) = [elt ?sol v, elt ?sol v]"
    using fix_variables_fixed [OF fx] by simp
  have other: "\<forall>v. in_range ?vs v \<and> v \<notin> set variables_to_fix
      \<longrightarrow> elt (variables ?m) v = elt ?vs v"
    using fix_variables_other [OF fx] by simp
  from res len hint fixed other show ?thesis
    by (intro exI [of _ ?m]) simp
qed

text \<open>
  Claim C3. When the incumbent has one entry per variable and every index to fix is a
  variable index, FixGivenPosition returns a model in which every fixed variable has
  the domain \<open>[incumbent v, incumbent v]\<close>, the solution hint is replaced by the one that
  lists the indices \<open>0..n-1\<close> with the incumbent's values (with no variable at all the
  hint stays cleared), every variable that is not fixed is unchanged, and so are the
  constraints and the search strategy.
\<close>

theorem FixGivenPosition_spec:
  assumes "length (solution response) = length (variables model)"
    and "\<forall>v\<in>set variables_to_fix. in_range (variables model) v"
  shows "\<exists>m. FixGivenPosition response variables_to_fix model = Inr m
           \<and> length (variables m) = length (variables model)
           \<and> (\<forall>v\<in>set variables_to_fix.
                 domain (elt (variables m) v) = [elt (solution response) v, elt (solution response) v])
           \<and> (\<forall>v. in_range (variables model) v \<and> v \<notin> set variables_to_fix
                 \<longrightarrow> elt (variables m) v = elt (variables model) v)
           \<and> solution_hint m =
               (if variables model = [] then None
                else Some \<lparr>vars = map int [0..<length (variables model)],
                           values = solution response\<rparr>)
           \<and> constraints m = constraints model
           \<and> search_strategy m = search_strategy model"
  using assms by (rule FixGivenPosition_props)

theorem FixGivenPosition_spec_witness:
  "FixGivenPosition scenario_solution [2, 3, 4] scenario_model =
     Inr (scenario_model\<lparr>variables :=
            [\<lparr>name = [], domain = [0, 10]\<rparr>, \<lparr>name = [], domain = [0, 10]\<rparr>,
             \<lparr>name = [], domain = [3, 3]\<rparr>, \<lparr>name = [], domain = [4, 4]\<rparr>,
             \<lparr>name = [], domain = [5, 5]\<rparr>],
          solution_hint := Some \<lparr>vars = [0, 1, 2, 3, 4], values = [1, 2, 3, 4, 5]\<rparr>\<rparr>)
   \<and> (\<exists>m. FixGivenPosition scenario_solution [2, 3, 4] scenario_model = Inr m
        \<and> domain (elt (variables m) 2) = [3, 3]
        \<and> elt (variables m) 0 = elt (variables scenario_model) 0
        \<and> solution_hint m = Some \<lparr>vars = [0, 1, 2, 3, 4], values = [1, 2, 3, 4, 5]\<rparr>
        \<and> constraints m = constraints scenario_model)"
proof -
  have h1: "length (solution scenario_solution) = length (variables scenario_model)"
    by (simp add: scenario_solution_def scenario_model_def)
  have h2: "\<forall>v\<in>set [2, 3, 4]. in_range (variables scenario_model) v"
    by (simp add: scenario_model_def in_range_def)
  have ev: "FixGivenPosition scenario_solution [2, 3, 4] scenario_model =
     Inr (scenario_model\<lparr>variables :=
            [\<lparr>name = [], domain = [0, 10]\<rparr>, \<lparr>name = [], domain = [0, 10]\<rparr>,
             \<lparr>name = [], domain = [3, 3]\<rparr>, \<lparr>name = [], domain = [4, 4]\<rparr>,
             \<lparr>name = [], domain = [5, 5]\<rparr>],
          solution_hint := Some \<lparr>vars = [0, 1, 2, 3, 4], values = [1, 2, 3, 4, 5]\<rparr>\<rparr>)"
    by (simp add: FixGivenPosition_def scenario_solution_def scenario_model_def
        in_range_def put_def elt_def add_hint_def upt_rec numeral_eq_Suc)
  from FixGivenPosition_spec [OF h1 h2] obtain m where
    m: "FixGivenPosition scenario_solution [2, 3, 4] scenario_model = Inr m"
    "\<forall>v\<in>set [2, 3, 4]. domain (elt (variables m) v)
        = [elt (solution scenario_solution) v, elt (solution scenario_solution) v]"
    "\<forall>v. in_range (variables scenario_model) v \<and> v \<notin> set [2, 3, 4]
        \<longrightarrow> elt (variables m) v = elt (variables scenario_model) v"
    "solution_hint m =
       (if variables scenario_model = [] then None
        else Some \<lparr>vars = map int [0..<length (variables scenario_model)],
                   values = solution scenario_solution\<rparr>)"
    "constraints m = constraints scenario_model"
    by blast
  from m(2) have "domain (elt (variables m) 2) = [3, 3]"
    by (simp add: scenario_solution_def elt_def)
  moreover from m(3) have "elt (variables m) 0 = elt (variables scenario_model) 0"
    by (simp add: scenario_model_def in_range_def)
  moreover from m(4) have
    "solution_hint m = Some \<lparr>vars = [0, 1, 2, 3, 4], values = [1, 2, 3, 4, 5]\<rparr>"
    by (simp add: scenario_model_def scenario_solution_def upt_rec numeral_eq_Suc)
  ultimately show ?thesis using ev m(1,5) by blast
qed

section \<open>Termination of the two walks\<close>

lemma unused_put:
  assumes "in_range used v" and "\<not> elt used v"
  shows "Suc (unused (put used v True)) = unused used"
proof -
  from assms have lt: "nat v < length used" by (simp add: in_range_nat)
  from assms have "used ! nat v = False" by (simp add: elt_def)
  moreover from this lt have "False \<in># mset used" by (metis nth_mem set_mset_mset)
  then have "count (mset used) False \<ge> 1" by (simp add: Suc_le_eq)
  ultimately show ?thesis
    using lt by (simp add: unused_def put_def mset_update)
qed

lemma collect_vars_measure:
  "collect_vars g vs (used, rv, na) = Inr (used', rv', na') \<Longrightarrow>
     unused used' + length rv' = unused used + length rv \<and> length used' = length used"
proof (induction vs arbitrary: used rv na)
  case Nil
  then show ?case by simp
next
  case (Cons v vs)
  then show ?case
    using unused_put [of used v]
    by (auto split: if_splits sum.splits)
qed

lemma collect_constraints_measure:
  "collect_constraints g cts (used, rv, na) = Inr (used', rv', na') \<Longrightarrow>
     unused used' + length rv' = unused used + length rv \<and> length used' = length used"
proof (induction cts arbitrary: used rv na)
  case Nil
  then show ?case by simp
next
  case (Cons ct cts)
  then show ?case
    by (auto split: if_splits sum.splits dest!: collect_vars_measure)
qed

lemma length_swap [simp]: "length (swap xs i j) = length xs"
  by (simp add: swap_def)

lemma mset_swap_elt: "in_range xs i \<Longrightarrow> in_range xs j \<Longrightarrow> mset (swap xs i j) = mset xs"
  by (simp add: swap_def put_def elt_def in_range_nat mset_swap)

lemma shuffle_from_mset:
  "shuffle_from E k i xs r = Inr (ys, r') \<Longrightarrow> mset ys = mset xs"
  by (induction k arbitrary: i xs r)
     (auto split: sum.splits if_splits prod.splits simp: mset_swap_elt)

lemma shuffle_mset: "shuffle E xs r = Inr (ys, r') \<Longrightarrow> mset ys = mset xs"
  by (simp add: shuffle_def shuffle_from_mset)

lemma shuffle_length: "shuffle E xs r = Inr (ys, r') \<Longrightarrow> length ys = length xs"
  by (metis shuffle_mset size_mset)

lemma shuffle_set: "shuffle E xs r = Inr (ys, r') \<Longrightarrow> set ys = set xs"
  by (metis shuffle_mset set_mset_mset)

lemma add_random_variables_length:
  "add_random_variables g t rvs (vis, rel) = Inr (vis', rel') \<Longrightarrow>
     length vis' \<le> length vis + length rvs"
proof (induction rvs arbitrary: vis rel)
  case Nil
  then show ?case by simp
next
  case (Cons v rvs)
  then show ?case
    by (fastforce split: sum.splits if_splits simp: Let_def)
qed

lemma vg_step_measure:
  assumes "vg_step E g t (i, used, vis, rel, r) = Inr (Next (i', used', vis', rel', r'))"
  shows "unused used' + length vis' - i' < unused used + length vis - i"
proof -
  from assms have i: "i < length vis" and i': "i' = i + 1"
    by (auto split: if_splits sum.splits prod.splits)
  from assms i obtain rv na rv' r1 where
    c: "collect_constraints g (elt (var_to_constraint g) (vis ! i)) (used, [], 0)
          = Inr (used', rv, na)"
    and s: "rv' = rv \<or> shuffle E rv r = Inr (rv', r1)"
    and a: "add_random_variables g t rv' (vis, rel) = Inr (vis', rel')"
    by (auto split: if_splits sum.splits prod.splits)
  from s have "length rv' = length rv" by (auto dest: shuffle_length)
  with collect_constraints_measure [OF c] add_random_variables_length [OF a] i i'
  show ?thesis by simp arith
qed

termination vg_loop
proof (relation "measure (\<lambda>(E, g, t, (i, used, vis, rel, r)). unused used + length vis - i)")
  show "wf (measure (\<lambda>(E, g, t, (i, used, vis, rel, r)). unused used + length vis - i))"
    by simp
next
  fix E :: "'a random_engine_t" and g :: "'b NeighborhoodGenerator" and t st x st'
  assume "vg_step E g t st = Inr x" "x = Next st'"
  then show "((E, g, t, st'), E, g, t, st)
      \<in> measure (\<lambda>(E, g, t, (i, used, vis, rel, r)). unused used + length vis - i)"
    using vg_step_measure [of E g t]
    by (cases st; cases st') auto
qed

lemma add_next_constraints_measure:
  "add_next_constraints cts (added, nxt) = Inr (added', nxt') \<Longrightarrow>
     unused added' + length nxt' = unused added + length nxt \<and> length added' = length added"
proof (induction cts arbitrary: added nxt)
  case Nil
  then show ?case by simp
next
  case (Cons ct cts)
  then show ?case
    using unused_put [of added ct]
    by (auto split: if_splits sum.splits)
qed

lemma visit_variables_measure:
  "visit_variables g t vs (vis, added, nxt, num) = Inr (vis', added', nxt', num') \<Longrightarrow>
     unused added' + length nxt' = unused added + length nxt"
proof (induction vs arbitrary: vis added nxt num)
  case Nil
  then show ?case by simp
next
  case (Cons v vs)
  then show ?case
    by (auto split: if_splits sum.splits prod.splits simp: Let_def
             dest!: add_next_constraints_measure)
qed

lemma cg_step_measure:
  assumes "cg_step E g t ((vis, added, nxt, num), r)
             = Inr (Next ((vis', added', nxt', num'), r'))"
  shows "unused added' + length nxt' < unused added + length nxt"
proof -
  from assms have ne: "nxt \<noteq> []"
    by (auto split: if_splits)
  from assms obtain i rv where
    v: "visit_variables g t rv (vis, added, butlast (swap nxt i (int (length nxt) - 1)), num)
          = Inr (vis', added', nxt', num')"
    by (auto split: if_splits sum.splits prod.splits simp: Let_def)
  from visit_variables_measure [OF v] ne show ?thesis
    by (cases nxt) auto
qed

termination cg_loop
proof (relation "measure (\<lambda>(E, g, t, ((vis, added, nxt, num), r)). unused added + length nxt)")
  show "wf (measure (\<lambda>(E, g, t, ((vis, added, nxt, num), r)). unused added + length nxt))"
    by simp
next
  fix E :: "'a random_engine_t" and g :: "'b NeighborhoodGenerator" and t st x st'
  assume "cg_step E g t st = Inr x" "x = Next st'"
  then show "((E, g, t, st'), E, g, t, st)
      \<in> measure (\<lambda>(E, g, t, ((vis, added, nxt, num), r)). unused added + length nxt)"
    using cg_step_measure [of E g t]
    by (cases st; cases st') auto
qed

declare vg_loop.simps [simp del] cg_loop.simps [simp del]

text \<open>Invariant rules for the two loops: a property of the state that every round
  keeps holds when the loop ends; if moreover no round fails, the loop returns.\<close>

lemma vg_loop_rule:
  assumes "vg_loop E g t st = Inr rel" and "I st"
    and "\<And>s s'. I s \<Longrightarrow> vg_step E g t s = Inr (Next s') \<Longrightarrow> I s'"
    and "\<And>s r. I s \<Longrightarrow> vg_step E g t s = Inr (Done r) \<Longrightarrow> Q r"
  shows "Q rel"
  using assms
proof (induction E g t st rule: vg_loop.induct)
  case (1 E g t st)
  note run = "1.prems"(1) and inv = "1.prems"(2) and keep = "1.prems"(3) and fin = "1.prems"(4)
  show ?case
  proof (cases "vg_step E g t st")
    case (Inl e)
    with run show ?thesis by (simp add: vg_loop.simps)
  next
    case (Inr x)
    show ?thesis
    proof (cases x)
      case (Done r)
      with Inr run have "r = rel" by (simp add: vg_loop.simps)
      with Inr Done inv fin [of st r] show ?thesis by simp
    next
      case (Next s')
      with Inr run have "vg_loop E g t s' = Inr rel" by (simp add: vg_loop.simps)
      moreover from Inr Next inv keep [of st s'] have "I s'" by simp
      ultimately show ?thesis using "1.IH" [OF Inr Next] keep fin by blast
    qed
  qed
qed

lemma cg_loop_rule:
  assumes "cg_loop E g t st = Inr vis" and "I st"
    and "\<And>s s'. I s \<Longrightarrow> cg_step E g t s = Inr (Next s') \<Longrightarrow> I s'"
    and "\<And>s r. I s \<Longrightarrow> cg_step E g t s = Inr (Done r) \<Longrightarrow> Q r"
  shows "Q vis"
  using assms
proof (induction E g t st rule: cg_loop.induct)
  case (1 E g t st)
  note run = "1.prems"(1) and inv = "1.prems"(2) and keep = "1.prems"(3) and fin = "1.prems"(4)
  show ?case
  proof (cases "cg_step E g t st")
    case (Inl e)
    with run show ?thesis by (simp add: cg_loop.simps)
  next
    case (Inr x)
    show ?thesis
    proof (cases x)
      case (Done r)
      with Inr run have "r = vis" by (simp add: cg_loop.simps)
      with Inr Done inv fin [of st r] show ?thesis by simp
    next
      case (Next s')
      with Inr run have "cg_loop E g t s' = Inr vis" by (simp add: cg_loop.simps)
      moreover from Inr Next inv keep [of st s'] have "I s'" by simp
      ultimately show ?thesis using "1.IH" [OF Inr Next] keep fin by blast
    qed
  qed
qed

lemma cg_loop_total:
  assumes "I st"
    and "\<And>s s'. I s \<Longrightarrow> cg_step E g t s = Inr (Next s') \<Longrightarrow> I s'"
    and "\<And>s. I s \<Longrightarrow> \<exists>x. cg_step E g t s = Inr x"
  shows "\<exists>vis. cg_loop E g t st = Inr vis"
  using assms
proof (induction E g t st rule: cg_loop.induct)
  case (1 E g t st)
  note inv = "1.prems"(1) and keep = "1.prems"(2) and ok = "1.prems"(3)
  from ok [OF inv] obtain x where x: "cg_step E g t st = Inr x"
    by blast
  show ?case
  proof (cases x)
    case (Done r)
    with x show ?thesis by (simp add: cg_loop.simps)
  next
    case (Next s')
    with x inv keep [of st s'] have "I s'" by simp
    with "1.IH" [OF x Next] keep ok have "\<exists>vis. cg_loop E g t s' = Inr vis" by blast
    with x Next show ?thesis by (simp add: cg_loop.simps)
  qed
qed

section \<open>Properties of the double arithmetic\<close>

lemma rne_cases: "rne q = \<lfloor>q\<rfloor> \<or> (rne q = \<lfloor>q\<rfloor> + 1 \<and> of_int \<lfloor>q\<rfloor> < q)"
  by (auto simp: rne_def Let_def)

lemma rne_nonneg: "0 \<le> q \<Longrightarrow> 0 \<le> rne q"
  using rne_cases [of q] by (auto simp: zero_le_floor) 

lemma rne_le_int: "q \<le> of_int N \<Longrightarrow> rne q \<le> N"
proof -
  assume a: "q \<le> of_int N"
  then have f: "\<lfloor>q\<rfloor> \<le> N" by (simp add: floor_le_iff) 
  from rne_cases [of q] show ?thesis
  proof
    assume "rne q = \<lfloor>q\<rfloor>" with f show ?thesis by simp
  next
    assume b: "rne q = \<lfloor>q\<rfloor> + 1 \<and> of_int \<lfloor>q\<rfloor> < q"
    with a have "of_int \<lfloor>q\<rfloor> < (of_int N :: real)" by linarith
    then have "\<lfloor>q\<rfloor> < N" by simp
    with b show ?thesis by simp
  qed
qed

lemma powi_pos: "0 < (2::real) powi k"
  by (simp add: power_int_def)

lemma round_double_nonneg: "0 \<le> x \<Longrightarrow> 0 \<le> round_double x"
proof (cases "x = 0")
  case True
  then show ?thesis by (simp add: round_double_def)
next
  case False
  assume "0 \<le> x"
  with False have x: "0 < x" by simp
  let ?u = "(2::real) powi (max \<lfloor>log 2 \<bar>x\<bar>\<rfloor> (- 1022) - 52)"
  from x powi_pos [of "max \<lfloor>log 2 \<bar>x\<bar>\<rfloor> (- 1022) - 52"] have "0 \<le> \<bar>x\<bar> / ?u" by simp
  from rne_nonneg [OF this] x powi_pos [of "max \<lfloor>log 2 \<bar>x\<bar>\<rfloor> (- 1022) - 52"] False
  show ?thesis by (simp add: round_double_def Let_def)
qed

lemma round_double_minus: "round_double (- x) = - round_double x"
  by (simp add: round_double_def Let_def)

lemma round_double_nonpos: "x \<le> 0 \<Longrightarrow> round_double x \<le> 0"
  using round_double_nonneg [of "- x"] by (simp add: round_double_minus)

lemma round_double_eval:
  assumes "0 < x" and "2 powi e \<le> x" and "x < 2 powi (e + 1)" and "- 1022 \<le> e"
  shows "round_double x = of_int (rne (x / 2 powi (e - 52))) * 2 powi (e - 52)"
proof -
  have "(2::real) powr of_int e = 2 powi e"
    by (simp add: powr_real_of_int')
  moreover have "(2::real) powr (of_int e + 1) = 2 powr of_int (e + 1)" by simp
  then have "(2::real) powr (of_int e + 1) = 2 powi (e + 1)"
    by (simp only: powr_real_of_int' [of 2 "e + 1", simplified])
  ultimately have "(2::real) powr of_int e = 2 powi e" "(2::real) powr (of_int e + 1) = 2 powi (e + 1)"
    by simp_all
  with assms(2,3) have "\<lfloor>log 2 x\<rfloor> = e"
    using floor_log_eq_powr_iff [of x 2 e] assms(1) by simp
  with assms(1,4) show ?thesis
    by (simp add: round_double_def Let_def max_def)
qed

lemma round_double_small:
  assumes "0 < x" and "x < 2 ^ 53"
  shows "\<exists>m. round_double x = of_int (rne (x * 2 ^ m)) / 2 ^ m"
proof -
  let ?e = "max \<lfloor>log 2 \<bar>x\<bar>\<rfloor> (- 1022)"
  from assms(2) have "x < 2 powr 53" by simp
  with assms(1) have "log 2 x < 53" by (simp add: log_less_iff)
  then have "\<lfloor>log 2 x\<rfloor> < 53" by (simp add: floor_less_iff)
  with assms(1) have e: "?e - 52 \<le> 0" by simp
  define m where "m = nat (- (?e - 52))"
  from e have u: "(2::real) powi (?e - 52) = 1 / 2 ^ m"
    by (simp add: power_int_def m_def field_simps)
  have "\<bar>x\<bar> / (2 powi (?e - 52)) = x * 2 ^ m"
    using assms(1) unfolding u by simp
  with assms(1) have "round_double x = of_int (rne (x * 2 ^ m)) / 2 ^ m"
    unfolding round_double_def Let_def u by simp
  then show ?thesis ..
qed

lemma rne_of_int [simp]: "rne (of_int k) = k"
  by (simp add: rne_def)

lemma round_double_le_nat:
  assumes "0 < x" and "x \<le> real n" and "n < 2 ^ 53"
  shows "round_double x \<le> real n"
proof -
  from assms(3) have "real n < real (2 ^ 53)" by (simp only: of_nat_less_iff)
  with assms(2) have "x < 2 ^ 53" by simp
  from round_double_small [OF assms(1) this] obtain m where
    r: "round_double x = of_int (rne (x * 2 ^ m)) / 2 ^ m" ..
  have "x * 2 ^ m \<le> real n * 2 ^ m"
    using assms(2) by (simp add: mult_right_mono)
  also have "\<dots> = of_int (int n * 2 ^ m)" by simp
  finally have "rne (x * 2 ^ m) \<le> int n * 2 ^ m" by (rule rne_le_int)
  then have "real_of_int (rne (x * 2 ^ m)) \<le> real_of_int (int n * 2 ^ m)"
    by (simp only: of_int_le_iff)
  then have "real_of_int (rne (x * 2 ^ m)) \<le> real n * 2 ^ m"
    by simp
  then show ?thesis
    unfolding r by (simp add: field_simps)
qed

lemma round_double_of_nat:
  assumes "n < 2 ^ 53"
  shows "round_double (real n) = real n"
proof (cases "n = 0")
  case True
  then show ?thesis by (simp add: round_double_def)
next
  case False
  then have pos: "0 < real n" by simp
  from assms have "real n < real (2 ^ 53)" by (simp only: of_nat_less_iff)
  then have "real n < 2 ^ 53" by simp
  from round_double_small [OF pos this] obtain m where
    r: "round_double (real n) = of_int (rne (real n * 2 ^ m)) / 2 ^ m" ..
  have "real n * 2 ^ m = of_int (int n * 2 ^ m)" by simp
  then have "rne (real n * 2 ^ m) = int n * 2 ^ m" by (simp only: rne_of_int)
  then show ?thesis unfolding r by simp
qed

lemma round_double_le_1: "x \<le> 1 \<Longrightarrow> round_double x \<le> 1"
proof (cases "0 < x")
  case True
  assume "x \<le> 1"
  with round_double_le_nat [OF True, of 1] show ?thesis by simp
next
  case False
  with round_double_nonpos [of x] show ?thesis by simp
qed

lemma double_fraction_bounds:
  assumes "0 \<le> (d::real)" and "d \<le> 1" and "n < 2 ^ 53"
  shows "0 \<le> \<lceil>round_double (round_double (1 - d) * round_double (real n))\<rceil>"
    and "\<lceil>round_double (round_double (1 - d) * round_double (real n))\<rceil> \<le> int n"
proof -
  let ?a = "round_double (1 - d)"
  note n = round_double_of_nat [OF assms(3)]
  from assms have a: "0 \<le> ?a" "?a \<le> 1"
    by (simp_all add: round_double_nonneg round_double_le_1)
  then have p0: "0 \<le> ?a * real n" by simp
  from a have p1: "?a * real n \<le> 1 * real n"
    by (intro mult_right_mono) simp_all
  from round_double_nonneg [OF p0] have "0 \<le> round_double (?a * real n)" .
  then show "0 \<le> \<lceil>round_double (?a * round_double (real n))\<rceil>"
    unfolding n by (simp add: ceiling_le_iff ceiling_less_iff)
  have "round_double (?a * real n) \<le> real n"
  proof (cases "?a * real n = 0")
    case True
    then show ?thesis by (simp add: round_double_def)
  next
    case False
    with p0 have "0 < ?a * real n" by (simp only: less_le) simp
    from round_double_le_nat [OF this _ assms(3)] p1 show ?thesis by simp
  qed
  then show "\<lceil>round_double (?a * round_double (real n))\<rceil> \<le> int n"
    unfolding n by (simp add: ceiling_le_iff)
qed

text \<open>The rounding at numbers of the concrete inputs, by \<open>round_double_eval\<close>.\<close>

lemma round_double_1 [simp]: "round_double 1 = 1"
  using round_double_eval [of 1 0] by (simp add: rne_def power_int_minus)

lemma round_double_half: "round_double (1 / 2) = 1 / 2"
  using round_double_eval [of "1 / 2" "- 1"] by (simp add: rne_def power_int_minus)

lemma round_double_5_2: "round_double (5 / 2) = 5 / 2"
  using round_double_eval [of "5 / 2" 1] by (simp add: rne_def power_int_minus)

lemma double_04: "round_double 0.4 = 3602879701896397 / 9007199254740992"
  using round_double_eval [of "0.4" "- 2"] by (simp add: rne_def power_int_minus)

lemma double_08: "round_double 0.8 = 3602879701896397 / 4503599627370496"
  using round_double_eval [of "0.8" "- 1"] by (simp add: rne_def power_int_minus)

lemma double_02: "round_double 0.2 = 3602879701896397 / 18014398509481984"
  using round_double_eval [of "0.2" "- 3"] by (simp add: rne_def power_int_minus)

lemma double_044: "round_double 0.44 = 7926335344172073 / 18014398509481984"
  using round_double_eval [of "0.44" "- 2"] by (simp add: rne_def power_int_minus)

lemma double_04_times_5: "round_double (3602879701896397 / 9007199254740992 * 5) = 2"
  using round_double_eval [of "3602879701896397 / 9007199254740992 * 5" 1]
  by (simp add: rne_def power_int_minus)

lemma double_08_times_5: "round_double (3602879701896397 / 4503599627370496 * 5) = 4"
  using round_double_eval [of "3602879701896397 / 4503599627370496 * 5" 2]
  by (simp add: rne_def power_int_minus)

lemma double_02_times_5: "round_double (3602879701896397 / 18014398509481984 * 5) = 1"
  using round_double_eval [of "3602879701896397 / 18014398509481984 * 5" 0]
  by (simp add: rne_def power_int_minus)

lemma double_1_minus_04:
  "round_double (1 - 3602879701896397 / 9007199254740992) = 5404319552844595 / 9007199254740992"
  using round_double_eval [of "1 - 3602879701896397 / 9007199254740992" "- 1"]
  by (simp add: rne_def power_int_minus)

lemma double_06_times_5: "round_double (5404319552844595 / 9007199254740992 * 5) = 3"
  using round_double_eval [of "5404319552844595 / 9007199254740992 * 5" 1]
  by (simp add: rne_def power_int_minus)

lemma double_1_minus_044:
  "round_double (1 - 7926335344172073 / 18014398509481984) = 1261007895663739 / 2251799813685248"
  using round_double_eval [of "1 - 7926335344172073 / 18014398509481984" "- 1"]
  by (simp add: rne_def power_int_minus)

lemma double_056_times_25:
  "round_double (1261007895663739 / 2251799813685248 * 25) = 7881299347898369 / 562949953421312"
  using round_double_eval [of "1261007895663739 / 2251799813685248 * 25" 3]
  by (simp add: rne_def power_int_minus)

lemma round_double_0 [simp]: "round_double 0 = 0"
  by (simp add: round_double_def)

lemma round_double_2 [simp]: "round_double 2 = 2"
  using round_double_of_nat [of 2] by simp

lemma round_double_3 [simp]: "round_double 3 = 3"
  using round_double_of_nat [of 3] by simp

lemma round_double_5 [simp]: "round_double 5 = 5"
  using round_double_of_nat [of 5] by simp

lemma round_double_25 [simp]: "round_double 25 = 25"
  using round_double_of_nat [of 25] by simp

lemma narrow_int_small [simp]:
  "- 2147483648 \<le> v \<Longrightarrow> v \<le> 2147483647 \<Longrightarrow> narrow_int v = Inr v"
  by (simp add: narrow_int_def)

lemma narrow_int_Inr: "narrow_int v = Inr t \<Longrightarrow> t = v \<and> v \<le> 2147483647"
  by (simp add: narrow_int_def split: if_splits)

section \<open>The generators on concrete inputs and at the ends of the difficulty range\<close>

lemma scenario_generator_new:
  "NeighborhoodGenerator_new (\<lambda>c. c) scenario_model focus = Inr scenario_generator"
  by (simp add: NeighborhoodGenerator_new_def scenario_model_def scenario_generator_def
      in_range_def put_def elt_def numeral_eq_Suc)

lemma focus_generator_new:
  "NeighborhoodGenerator_new (\<lambda>c. c) focus_model True = Inr focus_generator"
  by (simp add: NeighborhoodGenerator_new_def focus_model_def focus_generator_def
      in_range_def put_def elt_def numeral_eq_Suc)

lemma NeighborhoodGenerator_new_model:
  "NeighborhoodGenerator_new UsedVariables model focus = Inr g \<Longrightarrow> model_proto g = model"
  by (auto simp: NeighborhoodGenerator_new_def Let_def split: sum.splits prod.splits)

text \<open>Claim C4 as stated fails: at the double nearest to 0.8 and five active variables
  the ceiling of the exact product is 5, the active count, while the product rounded to
  a double is 4; the target size is 4, and both generators walk and fix the variables 3
  and 4.\<close>

theorem Generate_whole_pool_counterexample:
  "NeighborhoodGenerator_new (\<lambda>c. c) scenario_model False = Inr scenario_generator
   \<and> length (solution scenario_solution) = length (variables scenario_model)
   \<and> \<lceil>round_double 0.8 * real_of_int (num_active_vars scenario_generator)\<rceil>
       = num_active_vars scenario_generator
   \<and> target_size scenario_generator (round_double 0.8) = Inr 4
   \<and> VariableGraph_Generate counting_engine scenario_generator scenario_solution 0
         (round_double 0.8) =
       Inr (scenario_model\<lparr>variables :=
              [\<lparr>name = [], domain = [0, 10]\<rparr>, \<lparr>name = [], domain = [0, 10]\<rparr>,
               \<lparr>name = [], domain = [0, 10]\<rparr>, \<lparr>name = [], domain = [4, 4]\<rparr>,
               \<lparr>name = [], domain = [5, 5]\<rparr>],
            solution_hint := Some \<lparr>vars = [0, 1, 2, 3, 4], values = [1, 2, 3, 4, 5]\<rparr>\<rparr>)
   \<and> ConstraintGraph_Generate counting_engine scenario_generator scenario_solution 0
         (round_double 0.8) =
       Inr (scenario_model\<lparr>variables :=
              [\<lparr>name = [], domain = [0, 10]\<rparr>, \<lparr>name = [], domain = [0, 10]\<rparr>,
               \<lparr>name = [], domain = [0, 10]\<rparr>, \<lparr>name = [], domain = [4, 4]\<rparr>,
               \<lparr>name = [], domain = [5, 5]\<rparr>],
            solution_hint := Some \<lparr>vars = [0, 1, 2, 3, 4], values = [1, 2, 3, 4, 5]\<rparr>\<rparr>)
   \<and> VariableGraph_Generate counting_engine scenario_generator scenario_solution 0
         (round_double 0.8) \<noteq> Inr scenario_model
   \<and> ConstraintGraph_Generate counting_engine scenario_generator scenario_solution 0
         (round_double 0.8) \<noteq> Inr scenario_model"
proof -
  let ?m = "scenario_model\<lparr>variables :=
              [\<lparr>name = [], domain = [0, 10]\<rparr>, \<lparr>name = [], domain = [0, 10]\<rparr>,
               \<lparr>name = [], domain = [0, 10]\<rparr>, \<lparr>name = [], domain = [4, 4]\<rparr>,
               \<lparr>name = [], domain = [5, 5]\<rparr>],
            solution_hint := Some \<lparr>vars = [0, 1, 2, 3, 4], values = [1, 2, 3, 4, 5]\<rparr>\<rparr>"
  have l: "length (solution scenario_solution) = length (variables scenario_model)"
    by (simp add: scenario_solution_def scenario_model_def)
  have n: "num_active_vars scenario_generator = 5"
    by (simp add: num_active_vars_def scenario_generator_def scenario_model_def)
  have c: "\<lceil>round_double 0.8 * real_of_int (num_active_vars scenario_generator)\<rceil>
      = num_active_vars scenario_generator"
    unfolding double_08 n by simp
  have t: "target_size scenario_generator (round_double 0.8) = Inr 4"
    unfolding double_08 using double_08_times_5 by (simp add: target_size_def n)
  have r: "VariableGraph_relaxed counting_engine scenario_generator 0 4 = Inr [0, 1, 2]"
    by code_simp
  have v: "ConstraintGraph_visited counting_engine scenario_generator 0 4
      = Inr [True, True, True, False, False]"
    by code_simp
  have m: "mark_variables [0, 1, 2]
        (replicate (length (variables (model_proto scenario_generator))) False)
      = Inr [True, True, True, False, False]"
    by (simp add: scenario_generator_def scenario_model_def in_range_def put_def numeral_eq_Suc)
  have f: "fixed_variables_of scenario_generator [True, True, True, False, False] = Inr [3, 4]"
    by (simp add: fixed_variables_of_def scenario_generator_def scenario_model_def
        in_range_def elt_def upt_rec numeral_eq_Suc)
  have p: "FixGivenPosition scenario_solution [3, 4] (model_proto scenario_generator) = Inr ?m"
    by (simp add: FixGivenPosition_def scenario_solution_def scenario_model_def
        scenario_generator_def in_range_def put_def elt_def add_hint_def upt_rec numeral_eq_Suc)
  have vg: "VariableGraph_Generate counting_engine scenario_generator scenario_solution 0
      (round_double 0.8) = Inr ?m"
    using t n r m f p by (simp add: VariableGraph_Generate_def RelaxGivenVariables_def)
  have cg: "ConstraintGraph_Generate counting_engine scenario_generator scenario_solution 0
      (round_double 0.8) = Inr ?m"
    using t n v f p by (simp add: ConstraintGraph_Generate_def RelaxGivenVariables_def)
  have ne: "?m \<noteq> scenario_model"
    by (simp add: scenario_model_def numeral_eq_Suc)
  from vg ne have vn: "VariableGraph_Generate counting_engine scenario_generator
      scenario_solution 0 (round_double 0.8) \<noteq> Inr scenario_model"
    by simp
  from cg ne have cn: "ConstraintGraph_Generate counting_engine scenario_generator
      scenario_solution 0 (round_double 0.8) \<noteq> Inr scenario_model"
    by simp
  from scenario_generator_new l c t vg cg vn cn show ?thesis by blast
qed

text \<open>
  Claim C4, amended. When the target size that the code computes, the ceiling of the
  double product of the difficulty and the active count (the number of decision
  variables under focus, else the number of variables) narrowed to \<^verbatim>\<open>int\<close>, equals the
  active count, the Variable-graph and the Constraint-graph generator both return the
  model the generator was built from, unmodified.
\<close>

theorem Generate_whole_pool:
  assumes "NeighborhoodGenerator_new UsedVariables model focus = Inr g"
    and "target_size g difficulty = Inr (num_active_vars g)"
  shows "VariableGraph_Generate E g initial_solution seed difficulty = Inr model
       \<and> ConstraintGraph_Generate E g initial_solution seed difficulty = Inr model"
  using assms NeighborhoodGenerator_new_model [OF assms(1)]
  by (simp add: VariableGraph_Generate_def ConstraintGraph_Generate_def)

theorem Generate_whole_pool_witness:
  "NeighborhoodGenerator_new (\<lambda>c. c) scenario_model False = Inr scenario_generator
   \<and> target_size scenario_generator 1 = Inr (num_active_vars scenario_generator)
   \<and> VariableGraph_Generate counting_engine scenario_generator scenario_solution 0 1
       = Inr scenario_model
   \<and> ConstraintGraph_Generate counting_engine scenario_generator scenario_solution 0 1
       = Inr scenario_model"
proof -
  have h1: "NeighborhoodGenerator_new (\<lambda>c. c) scenario_model False = Inr scenario_generator"
    by (rule scenario_generator_new)
  have h2: "target_size scenario_generator 1 = Inr (num_active_vars scenario_generator)"
    by (simp add: target_size_def num_active_vars_def scenario_generator_def scenario_model_def)
  from Generate_whole_pool [OF h1 h2, of counting_engine scenario_solution 0] h1 h2
  show ?thesis by blast
qed

text \<open>Claim C2 as stated fails: with a non-empty active pool and difficulty 0 the target
  size is 0 and \<^verbatim>\<open>CHECK_GT(target_size, 0)\<close> fails in both generators.\<close>

theorem Generate_difficulty_zero_counterexample:
  "0 < num_active_vars scenario_generator
   \<and> length (solution scenario_solution) = length (variables (model_proto scenario_generator))
   \<and> VariableGraph_Generate counting_engine scenario_generator scenario_solution 0 0
       = Inl CheckFailed
   \<and> ConstraintGraph_Generate counting_engine scenario_generator scenario_solution 0 0
       = Inl CheckFailed"
  by (simp add: VariableGraph_Generate_def ConstraintGraph_Generate_def target_size_def
      num_active_vars_def scenario_generator_def scenario_model_def scenario_solution_def)

text \<open>
  Claim C2, amended. For every generator whose active pool is non-empty, every incumbent
  and every seed, Generate of the Variable-graph and of the Constraint-graph generator
  with difficulty 0 fails the check \<^verbatim>\<open>CHECK_GT(target_size, 0)\<close>: no model is returned.
\<close>

theorem Generate_difficulty_zero:
  assumes "0 < num_active_vars g"
  shows "VariableGraph_Generate E g initial_solution seed 0 = Inl CheckFailed
       \<and> ConstraintGraph_Generate E g initial_solution seed 0 = Inl CheckFailed"
  using assms
  by (simp add: VariableGraph_Generate_def ConstraintGraph_Generate_def target_size_def)

theorem Generate_difficulty_zero_witness:
  "0 < num_active_vars focus_generator
   \<and> VariableGraph_Generate counting_engine focus_generator focus_solution 3 0 = Inl CheckFailed
   \<and> ConstraintGraph_Generate counting_engine focus_generator focus_solution 3 0
       = Inl CheckFailed"
proof -
  have h: "0 < num_active_vars focus_generator"
    by (simp add: num_active_vars_def focus_generator_def)
  from Generate_difficulty_zero [OF h, of counting_engine focus_solution 3] h
  show ?thesis by blast
qed

lemma scenario_relaxed:
  assumes "fst (uniform_int E 0 4 (seed_engine E seed)) = 0"
  shows "VariableGraph_relaxed E scenario_generator seed 2 = Inr [0, 1]"
proof -
  obtain r where r: "uniform_int E 0 4 (seed_engine E seed) = (0, r)"
    using assms by (cases "uniform_int E 0 4 (seed_engine E seed)") simp
  have "VariableGraph_relaxed E scenario_generator seed 2 =
      vg_loop E scenario_generator 2 (0, [True, False, False, False, False], [0], [0], r)"
    using r
    by (simp add: VariableGraph_relaxed_def num_active_vars_def scenario_generator_def
        scenario_model_def uniform_int_distribution_def in_range_def put_def numeral_eq_Suc)
  also have "\<dots> = Inr [0, 1]"
    by (simp add: vg_loop.simps scenario_generator_def in_range_def elt_def put_def
        IsActive_def shuffle_def numeral_eq_Suc)
  finally show ?thesis .
qed

text \<open>
  Claim C7. On the scenario model with focus off and difficulty 0.4, the target size is 2,
  and every run of the Variable-graph generator whose first draw is variable 0 relaxes
  exactly the variables 0 and 1: the model returned fixes the variables 2, 3 and 4 to the
  single-point domains of 3, 4 and 5, and its hint lists the five variables with the
  values 1 to 5. This holds at the number 0.4 and at the double nearest to it, which is
  the difficulty the program receives.
\<close>

theorem VariableGraph_scenario:
  assumes "fst (uniform_int E 0 4 (seed_engine E seed)) = 0"
  shows "NeighborhoodGenerator_new (\<lambda>c. c) scenario_model False = Inr scenario_generator
       \<and> target_size scenario_generator 0.4 = Inr 2
       \<and> target_size scenario_generator (round_double 0.4) = Inr 2
       \<and> VariableGraph_relaxed E scenario_generator seed 2 = Inr [0, 1]
       \<and> VariableGraph_Generate E scenario_generator scenario_solution seed 0.4 =
           Inr (scenario_model\<lparr>variables :=
                  [\<lparr>name = [], domain = [0, 10]\<rparr>, \<lparr>name = [], domain = [0, 10]\<rparr>,
                   \<lparr>name = [], domain = [3, 3]\<rparr>, \<lparr>name = [], domain = [4, 4]\<rparr>,
                   \<lparr>name = [], domain = [5, 5]\<rparr>],
                solution_hint := Some \<lparr>vars = [0, 1, 2, 3, 4], values = [1, 2, 3, 4, 5]\<rparr>\<rparr>)
       \<and> VariableGraph_Generate E scenario_generator scenario_solution seed (round_double 0.4) =
           Inr (scenario_model\<lparr>variables :=
                  [\<lparr>name = [], domain = [0, 10]\<rparr>, \<lparr>name = [], domain = [0, 10]\<rparr>,
                   \<lparr>name = [], domain = [3, 3]\<rparr>, \<lparr>name = [], domain = [4, 4]\<rparr>,
                   \<lparr>name = [], domain = [5, 5]\<rparr>],
                solution_hint := Some \<lparr>vars = [0, 1, 2, 3, 4], values = [1, 2, 3, 4, 5]\<rparr>\<rparr>)"
proof -
  have t: "target_size scenario_generator 0.4 = Inr 2"
    by (simp add: target_size_def num_active_vars_def scenario_generator_def scenario_model_def)
  have t': "target_size scenario_generator (round_double 0.4) = Inr 2"
    unfolding double_04
    using double_04_times_5
    by (simp add: target_size_def num_active_vars_def scenario_generator_def scenario_model_def)
  have n: "num_active_vars scenario_generator = 5"
    by (simp add: num_active_vars_def scenario_generator_def scenario_model_def)
  have m: "mark_variables [0, 1] (replicate (length (variables (model_proto scenario_generator))) False)
      = Inr [True, True, False, False, False]"
    by (simp add: scenario_generator_def scenario_model_def in_range_def put_def numeral_eq_Suc)
  have f: "fixed_variables_of scenario_generator [True, True, False, False, False] = Inr [2, 3, 4]"
    by (simp add: fixed_variables_of_def scenario_generator_def scenario_model_def
        in_range_def elt_def upt_rec numeral_eq_Suc)
  have p: "FixGivenPosition scenario_solution [2, 3, 4] (model_proto scenario_generator) =
     Inr (scenario_model\<lparr>variables :=
            [\<lparr>name = [], domain = [0, 10]\<rparr>, \<lparr>name = [], domain = [0, 10]\<rparr>,
             \<lparr>name = [], domain = [3, 3]\<rparr>, \<lparr>name = [], domain = [4, 4]\<rparr>,
             \<lparr>name = [], domain = [5, 5]\<rparr>],
          solution_hint := Some \<lparr>vars = [0, 1, 2, 3, 4], values = [1, 2, 3, 4, 5]\<rparr>\<rparr>)"
    by (simp add: FixGivenPosition_def scenario_solution_def scenario_model_def
        scenario_generator_def in_range_def put_def elt_def add_hint_def upt_rec numeral_eq_Suc)
  have "VariableGraph_Generate E scenario_generator scenario_solution seed d =
     Inr (scenario_model\<lparr>variables :=
            [\<lparr>name = [], domain = [0, 10]\<rparr>, \<lparr>name = [], domain = [0, 10]\<rparr>,
             \<lparr>name = [], domain = [3, 3]\<rparr>, \<lparr>name = [], domain = [4, 4]\<rparr>,
             \<lparr>name = [], domain = [5, 5]\<rparr>],
          solution_hint := Some \<lparr>vars = [0, 1, 2, 3, 4], values = [1, 2, 3, 4, 5]\<rparr>\<rparr>)"
    if "target_size scenario_generator d = Inr 2" for d
    using that scenario_relaxed [OF assms] n m f p
    by (simp add: VariableGraph_Generate_def RelaxGivenVariables_def)
  from this [OF t] this [OF t'] scenario_generator_new scenario_relaxed [OF assms] t t'
  show ?thesis by blast
qed

theorem VariableGraph_scenario_witness:
  "fst (uniform_int counting_engine 0 4 (seed_engine counting_engine 0)) = 0
   \<and> VariableGraph_relaxed counting_engine scenario_generator 0 2 = Inr [0, 1]
   \<and> VariableGraph_Generate counting_engine scenario_generator scenario_solution 0
         (round_double 0.4) =
       Inr (scenario_model\<lparr>variables :=
              [\<lparr>name = [], domain = [0, 10]\<rparr>, \<lparr>name = [], domain = [0, 10]\<rparr>,
               \<lparr>name = [], domain = [3, 3]\<rparr>, \<lparr>name = [], domain = [4, 4]\<rparr>,
               \<lparr>name = [], domain = [5, 5]\<rparr>],
            solution_hint := Some \<lparr>vars = [0, 1, 2, 3, 4], values = [1, 2, 3, 4, 5]\<rparr>\<rparr>)"
proof -
  have h: "fst (uniform_int counting_engine 0 4 (seed_engine counting_engine 0)) = 0"
    by (simp add: counting_engine_def)
  from VariableGraph_scenario [OF h] h show ?thesis by blast
qed

section \<open>The constructor builds a well-formed generator\<close>

lemma elt_put:
  "in_range xs i \<Longrightarrow> in_range xs j \<Longrightarrow> elt (put xs i v) j = (if i = j then v else elt xs j)"
  by (auto simp: elt_def put_def in_range_def nat_less_iff)

lemma set_elt_put_snoc:
  "in_range xs i \<Longrightarrow> in_range xs j \<Longrightarrow>
     set (elt (put xs i (elt xs i @ [x])) j) = set (elt xs j) \<union> (if i = j then {x} else {})"
  by (simp add: elt_put)

lemma graph_okD1:
  "graph_ok (v2c, c2v) \<Longrightarrow> in_range v2c v \<Longrightarrow> ct \<in> set (elt v2c v) \<Longrightarrow> in_range c2v ct"
  unfolding graph_ok_def prod.case by blast

lemma graph_okD2:
  "graph_ok (v2c, c2v) \<Longrightarrow> in_range v2c v \<Longrightarrow> ct \<in> set (elt v2c v) \<Longrightarrow> v \<in> set (elt c2v ct)"
  unfolding graph_ok_def prod.case by blast

lemma graph_okD3:
  "graph_ok (v2c, c2v) \<Longrightarrow> in_range c2v ct \<Longrightarrow> v \<in> set (elt c2v ct) \<Longrightarrow> in_range v2c v"
  unfolding graph_ok_def prod.case by blast

lemma graph_ok_step:
  assumes ok: "graph_ok (v2c, c2v)" and r: "in_range v2c var" "in_range c2v ct"
  shows "graph_ok (put v2c var (elt v2c var @ [ct]), put c2v ct (elt c2v ct @ [var]))"
  unfolding graph_ok_def prod.case
proof (intro conjI allI impI)
  fix v c
  assume a: "in_range (put v2c var (elt v2c var @ [ct])) v \<and>
      c \<in> set (elt (put v2c var (elt v2c var @ [ct])) v)"
  then have v: "in_range v2c v" by simp
  from a have "c \<in> set (elt v2c v) \<union> (if var = v then {ct} else {})"
    unfolding set_elt_put_snoc [OF r(1) v] by simp
  then have d: "c \<in> set (elt v2c v) \<or> (v = var \<and> c = ct)"
    by (cases "var = v") auto
  from d show "in_range (put c2v ct (elt c2v ct @ [var])) c"
  proof
    assume "c \<in> set (elt v2c v)"
    from graph_okD1 [OF ok v this] show ?thesis by simp
  next
    assume "v = var \<and> c = ct"
    with r show ?thesis by simp
  qed
  from d show "v \<in> set (elt (put c2v ct (elt c2v ct @ [var])) c)"
  proof
    assume c: "c \<in> set (elt v2c v)"
    from graph_okD1 [OF ok v c] graph_okD2 [OF ok v c] show ?thesis
      unfolding set_elt_put_snoc [OF r(2) graph_okD1 [OF ok v c]] by simp
  next
    assume "v = var \<and> c = ct"
    with r show ?thesis
      by (simp add: set_elt_put_snoc)
  qed
next
  fix c v
  assume a: "in_range (put c2v ct (elt c2v ct @ [var])) c \<and>
      v \<in> set (elt (put c2v ct (elt c2v ct @ [var])) c)"
  then have c: "in_range c2v c" by simp
  from a have "v \<in> set (elt c2v c) \<union> (if ct = c then {var} else {})"
    unfolding set_elt_put_snoc [OF r(2) c] by simp
  then have d: "v \<in> set (elt c2v c) \<or> (c = ct \<and> v = var)"
    by (cases "ct = c") auto
  from d show "in_range (put v2c var (elt v2c var @ [ct])) v"
  proof
    assume "v \<in> set (elt c2v c)"
    from graph_okD3 [OF ok c this] show ?thesis by simp
  next
    assume "c = ct \<and> v = var"
    with r show ?thesis by simp
  qed
qed

lemma add_used_variables_ok:
  "add_used_variables n ct vs (v2c, c2v) = Inr (v2c', c2v') \<Longrightarrow> graph_ok (v2c, c2v) \<Longrightarrow>
     graph_ok (v2c', c2v') \<and> length v2c' = length v2c \<and> length c2v' = length c2v"
proof (induction vs arbitrary: v2c c2v)
  case Nil
  then show ?case by simp
next
  case (Cons var vs)
  from Cons.prems(1) have r: "in_range v2c var" "in_range c2v ct"
    and rest: "add_used_variables n ct vs
        (put v2c var (elt v2c var @ [ct]), put c2v ct (elt c2v ct @ [var])) = Inr (v2c', c2v')"
    by (simp_all split: if_splits)
  from Cons.IH [OF rest graph_ok_step [OF Cons.prems(2) r]] show ?case by simp
qed

lemma add_constraints_ok:
  "add_constraints UV n cs k G = Inr G' \<Longrightarrow> graph_ok G \<Longrightarrow>
     graph_ok G' \<and> length (fst G') = length (fst G) \<and> length (snd G') = length (snd G)"
proof (induction cs arbitrary: k G)
  case Nil
  then show ?case by simp
next
  case (Cons c cs)
  from Cons.prems(1) obtain G1 where
    a: "add_used_variables n k (UV c) G = Inr G1" and b: "add_constraints UV n cs (k + 1) G1 = Inr G'"
    by (auto split: sum.splits)
  from add_used_variables_ok [of n k "UV c" "fst G" "snd G" "fst G1" "snd G1"] a Cons.prems(2)
  have "graph_ok G1 \<and> length (fst G1) = length (fst G) \<and> length (snd G1) = length (snd G)"
    by simp
  with Cons.IH [OF b] show ?case by simp
qed

lemma decisions_ok_step:
  assumes ok: "decisions_ok (dset, dvars)" and r: "in_range dset var" and f: "\<not> elt dset var"
  shows "decisions_ok (put dset var True, dvars @ [var])"
proof -
  from ok have d: "distinct dvars" and m: "\<And>v. v \<in> set dvars \<longleftrightarrow> in_range dset v \<and> elt dset v"
    unfolding decisions_ok_def prod.case by blast+
  from m [of var] f have "var \<notin> set dvars" by blast
  with d have "distinct (dvars @ [var])" by simp
  moreover have "v \<in> set (dvars @ [var]) \<longleftrightarrow>
      in_range (put dset var True) v \<and> elt (put dset var True) v" for v
  proof (cases "in_range dset v")
    case True
    from elt_put [OF r True, of True] m [of v] True show ?thesis by auto
  next
    case False
    with m [of v] r show ?thesis by auto
  qed
  ultimately show ?thesis
    unfolding decisions_ok_def prod.case by blast
qed

lemma add_decision_variables_ok:
  "add_decision_variables vs (dset, dvars) = Inr (dset', dvars') \<Longrightarrow> decisions_ok (dset, dvars)
     \<Longrightarrow> decisions_ok (dset', dvars') \<and> length dset' = length dset
         \<and> (dvars' \<noteq> [] \<longrightarrow> dvars \<noteq> [] \<or> vs \<noteq> [])"
proof (induction vs arbitrary: dset dvars)
  case Nil
  then show ?case by simp
next
  case (Cons var vs)
  from Cons.prems(1) have r: "in_range dset var" by (auto split: if_splits)
  show ?case
  proof (cases "elt dset var")
    case True
    with Cons r show ?thesis by (auto split: if_splits)
  next
    case False
    with Cons.prems(1) r have
      rest: "add_decision_variables vs (put dset var True, dvars @ [var]) = Inr (dset', dvars')"
      by simp
    have "decisions_ok (put dset var True, dvars @ [var])"
      by (rule decisions_ok_step [OF Cons.prems(2) r False])
    from Cons.IH [OF rest this] show ?thesis by simp
  qed
qed

lemma add_search_strategies_ok:
  "add_search_strategies ss D = Inr D' \<Longrightarrow> decisions_ok D
     \<Longrightarrow> decisions_ok D' \<and> length (fst D') = length (fst D)
         \<and> (snd D' \<noteq> [] \<longrightarrow> snd D \<noteq> [] \<or> ss \<noteq> [])"
proof (induction ss arbitrary: D)
  case Nil
  then show ?case by simp
next
  case (Cons s ss)
  from Cons.prems(1) obtain D1 where
    a: "add_decision_variables s D = Inr D1" and b: "add_search_strategies ss D1 = Inr D'"
    by (auto split: sum.splits)
  from add_decision_variables_ok [of s "fst D" "snd D" "fst D1" "snd D1"] a Cons.prems(2)
  have "decisions_ok D1 \<and> length (fst D1) = length (fst D)" by simp
  with Cons.IH [OF b] show ?case by simp
qed

lemma NeighborhoodGenerator_new_wf:
  assumes "NeighborhoodGenerator_new UsedVariables model focus = Inr g"
  shows "wf_generator g"
proof -
  let ?n = "length (variables model)"
  let ?G0 = "(replicate ?n [], replicate (length (constraints model)) []) :: int list list \<times> int list list"
  let ?D0 = "(if length (search_strategy model) > 0 then replicate ?n False else [], []) :: bool list \<times> int list"
  from assms obtain v2c c2v dset dvars where
    G: "add_constraints UsedVariables ?n (constraints model) 0 ?G0 = Inr (v2c, c2v)"
    and D: "add_search_strategies (search_strategy model) ?D0 = Inr (dset, dvars)"
    and g: "g = \<lparr>model_proto = model,
                 focus_on_decision_variables = (if dvars = [] then False else focus),
                 var_to_constraint = v2c, constraint_to_var = c2v,
                 decision_variables_set = dset, decision_variables = dvars\<rparr>"
    by (auto simp: NeighborhoodGenerator_new_def Let_def split: sum.splits prod.splits)
  have "graph_ok ?G0"
    unfolding graph_ok_def prod.case
    by (auto simp: elt_def in_range_def nat_less_iff)
  from add_constraints_ok [OF G this] have 1: "graph_ok (v2c, c2v)" "length v2c = ?n"
    by simp_all
  have "decisions_ok ?D0"
    unfolding decisions_ok_def prod.case
    by (auto simp: elt_def in_range_def nat_less_iff)
  from add_search_strategies_ok [OF D this]
  have 2: "decisions_ok (dset, dvars)" "length dset = length (fst ?D0)"
    "dvars \<noteq> [] \<longrightarrow> search_strategy model \<noteq> []"
    by simp_all
  from 2(2,3) have 3: "dvars \<noteq> [] \<longrightarrow> length dset = ?n" by auto
  have sel: "model_proto g = model" "var_to_constraint g = v2c" "constraint_to_var g = c2v"
    "decision_variables_set g = dset" "decision_variables g = dvars"
    "focus_on_decision_variables g = (if dvars = [] then False else focus)"
    by (simp_all add: g)
  from 1 2(1) 3 show ?thesis
    unfolding wf_generator_def sel by simp
qed

section \<open>The relaxed and the fixed variables\<close>

lemma wf_generatorD:
  assumes "wf_generator g"
  shows "length (var_to_constraint g) = length (variables (model_proto g))"
    and "graph_ok (var_to_constraint g, constraint_to_var g)"
    and "distinct (decision_variables g)"
    and "\<And>v. v \<in> set (decision_variables g)
           \<longleftrightarrow> in_range (decision_variables_set g) v \<and> elt (decision_variables_set g) v"
    and "focus_on_decision_variables g \<Longrightarrow>
           length (decision_variables_set g) = length (variables (model_proto g))"
    and "focus_on_decision_variables g \<Longrightarrow> decision_variables g \<noteq> []"
  using assms unfolding wf_generator_def decisions_ok_def prod.case by blast+

lemma collect_fixed_eq:
  "\<forall>i\<in>set is. in_range relaxed i \<Longrightarrow>
     collect_fixed relaxed is acc = Inr (acc @ filter (\<lambda>i. \<not> elt relaxed i) is)"
  by (induction "is" arbitrary: acc) simp_all

lemma filter_unrelaxed_upt:
  "length (filter (\<lambda>i. \<not> elt relaxed i) (map int [0..<length relaxed]))
     = length (filter (\<lambda>b. \<not> b) relaxed)"
proof -
  have "length (filter (\<lambda>i. \<not> elt relaxed i) (map int [0..<length relaxed]))
      = length (filter (\<lambda>b. \<not> b) (map (\<lambda>k. relaxed ! k) [0..<length relaxed]))"
    by (simp add: filter_map o_def elt_def)
  then show ?thesis by (simp add: map_nth)
qed

lemma pool_in_range:
  assumes "wf_generator g" and "length xs = length (variables (model_proto g))"
    and "i \<in> set (if focus_on_decision_variables g then decision_variables g
                    else map int [0..<length (variables (model_proto g))])"
  shows "in_range xs i"
proof (cases "focus_on_decision_variables g")
  case True
  with assms(3) wf_generatorD(4) [OF assms(1), of i] wf_generatorD(5) [OF assms(1)] assms(2)
  show ?thesis by (simp add: in_range_def)
next
  case False
  with assms(2,3) show ?thesis by (auto simp: in_range_def)
qed

lemma fixed_variables_of_eq:
  assumes "wf_generator g" and "length relaxed = length (variables (model_proto g))"
  shows "fixed_variables_of g relaxed =
     Inr (filter (\<lambda>i. \<not> elt relaxed i)
           (if focus_on_decision_variables g then decision_variables g
            else map int [0..<length (variables (model_proto g))]))"
proof -
  let ?pool = "if focus_on_decision_variables g then decision_variables g
               else map int [0..<length (variables (model_proto g))]"
  have "\<forall>i\<in>set ?pool. in_range relaxed i"
    using pool_in_range [OF assms] by blast
  from collect_fixed_eq [OF this, of "[]"] show ?thesis
    by (cases "focus_on_decision_variables g") (simp_all add: fixed_variables_of_def)
qed

section \<open>The Simple generator\<close>

lemma engine_okD:
  "engine_ok E \<Longrightarrow> a \<le> b \<Longrightarrow> uniform_int E a b r = (x, r') \<Longrightarrow> a \<le> x \<and> x \<le> b"
  unfolding engine_ok_def by (metis fst_conv)

lemma uniform_int_distribution_ok:
  assumes "engine_ok E" and "a \<le> b"
  shows "\<exists>x r'. uniform_int_distribution E a b r = Inr (x, r') \<and> a \<le> x \<and> x \<le> b"
proof -
  obtain x r' where u: "uniform_int E a b r = (x, r')" by (cases "uniform_int E a b r")
  with engine_okD [OF assms u] assms(2) show ?thesis
    by (simp add: uniform_int_distribution_def)
qed

lemma shuffle_from_ok:
  assumes "engine_ok E"
  shows "0 \<le> i \<Longrightarrow> k = 0 \<or> nat i + k \<le> length xs \<Longrightarrow> \<exists>ys r'. shuffle_from E k i xs r = Inr (ys, r')"
proof (induction k arbitrary: i xs r)
  case 0
  then show ?case by simp
next
  case (Suc k)
  from uniform_int_distribution_ok [OF assms Suc.prems(1), of r] obtain j r1 where
    u: "uniform_int_distribution E 0 i r = Inr (j, r1)" and j: "0 \<le> j" "j \<le> i"
    by blast
  from Suc.prems have i: "in_range xs i"
    by (simp add: in_range_def)
  with j have jr: "in_range xs j" by (simp add: in_range_def)
  from Suc.prems have "0 \<le> i + 1" and "k = 0 \<or> nat (i + 1) + k \<le> length (swap xs i j)"
    by (simp_all add: nat_add_distrib)
  from Suc.IH [OF this, of r1] u i jr show ?case by simp
qed

lemma shuffle_ok:
  assumes "engine_ok E"
  shows "\<exists>ys r'. shuffle E xs r = Inr (ys, r') \<and> mset ys = mset xs"
proof -
  have "length xs - 1 = 0 \<or> nat 1 + (length xs - 1) \<le> length xs" by (cases xs) simp_all
  from shuffle_from_ok [OF assms _ this, of r] obtain ys r'
    where "shuffle E xs r = Inr (ys, r')" by (auto simp: shuffle_def)
  with shuffle_mset [OF this] show ?thesis by blast
qed

lemma resize_take: "0 \<le> t \<Longrightarrow> t \<le> int (length xs) \<Longrightarrow> resize xs t = Inr (take (nat t) xs)"
  by (simp add: resize_def)

lemma distinct_in_range_length:
  assumes "distinct xs" and "\<forall>v\<in>set xs. in_range ys v"
  shows "length xs \<le> length ys"
proof -
  have "set xs \<subseteq> int ` {0..<length ys}"
  proof
    fix v assume "v \<in> set xs"
    with assms(2) have "0 \<le> v" "v < int (length ys)" by (simp_all add: in_range_def)
    then have "v = int (nat v)" "nat v \<in> {0..<length ys}" by simp_all
    then show "v \<in> int ` {0..<length ys}" by (rule image_eqI)
  qed
  then have "card (set xs) \<le> card (int ` {0..<length ys})" by (intro card_mono) simp_all
  also have "\<dots> \<le> card {0..<length ys}" by (rule card_image_le) simp
  finally show ?thesis using assms(1) by (simp add: distinct_card)
qed

lemma engine_ok_counting_engine: "engine_ok counting_engine"
proof -
  have "a \<le> a + int k mod (b - a + 1) \<and> a + int k mod (b - a + 1) \<le> b" if "a \<le> b" for a b k
  proof -
    from that have p: "0 < b - a + 1" by simp
    from pos_mod_sign [OF p, of "int k"] pos_mod_bound [OF p, of "int k"] show ?thesis by simp
  qed
  then show ?thesis by (simp add: engine_ok_def counting_engine_def)
qed

lemma wide_generator_new:
  "NeighborhoodGenerator_new (\<lambda>c. c) wide_model False = Inr wide_generator"
  by (simp add: NeighborhoodGenerator_new_def wide_model_def wide_generator_def)

text \<open>The Simple generator on the scenario model at the double nearest to 0.4: the
  difference \<open>1 - difficulty\<close> is a double, its product with 5 rounds to 3.\<close>

lemma Simple_fixed_scenario:
  "Simple_fixed_variables counting_engine scenario_generator 0 (round_double 0.4) = Inr [1, 2, 3]"
proof -
  have sh: "shuffle counting_engine [0, 1, 2, 3, 4] 0 = Inr ([1, 2, 3, 4, 0], 4)"
    by code_simp
  have tgt: "\<lceil>round_double (round_double (1 - round_double 0.4) * round_double 5)\<rceil> = (3::int)"
    unfolding double_04 double_1_minus_04 round_double_5 double_06_times_5 by simp
  have "Simple_fixed_variables counting_engine scenario_generator 0 d =
      (case narrow_int \<lceil>round_double (round_double (1 - d) * round_double 5)\<rceil> of
         Inl e \<Rightarrow> Inl e
       | Inr t \<Rightarrow> resize [1, 2, 3, 4, 0] t)" for d
    using sh
    by (simp add: Simple_fixed_variables_def scenario_generator_def scenario_model_def
        counting_engine_def upt_rec numeral_eq_Suc)
  from this [of "round_double 0.4"] show ?thesis
    unfolding tgt by (simp add: resize_def)
qed

text \<open>Claim C5 as stated fails: on 25 variables at the double nearest to 0.44 the
  ceiling of the exact product \<open>(1 - difficulty) * 25\<close> is 14, while the code, which
  rounds the difference and the product to doubles, fixes 15 variables.\<close>

theorem Simple_Generate_spec_counterexample:
  "NeighborhoodGenerator_new (\<lambda>c. c) wide_model False = Inr wide_generator
   \<and> length (solution wide_solution) = length (variables wide_model)
   \<and> 0 \<le> round_double 0.44 \<and> round_double 0.44 \<le> 1
   \<and> engine_ok counting_engine
   \<and> \<lceil>(1 - round_double 0.44) * real (length (variables wide_model))\<rceil> = 14
   \<and> Simple_fixed_variables counting_engine wide_generator 0 (round_double 0.44)
       = Inr [1, 2, 3, 4, 5, 6, 7, 8, 9, 10, 11, 12, 13, 14, 15]
   \<and> length [1 :: int, 2, 3, 4, 5, 6, 7, 8, 9, 10, 11, 12, 13, 14, 15] = 15"
proof -
  have l: "length (solution wide_solution) = length (variables wide_model)"
    by (simp add: wide_solution_def wide_model_def)
  have d: "0 \<le> round_double 0.44" "round_double 0.44 \<le> 1"
    unfolding double_044 by simp_all
  have c: "\<lceil>(1 - round_double 0.44) * real (length (variables wide_model))\<rceil> = 14"
    unfolding double_044 by (simp add: wide_model_def)
  have sh: "shuffle counting_engine
      [0, 1, 2, 3, 4, 5, 6, 7, 8, 9, 10, 11, 12, 13, 14, 15, 16, 17, 18, 19, 20, 21, 22, 23, 24] 0
      = Inr ([1, 2, 3, 4, 5, 6, 7, 8, 9, 10, 11, 12, 13, 14, 15, 16, 17, 18, 19, 20, 21, 22, 23, 24, 0], 24)"
    by code_simp
  have tgt: "\<lceil>round_double (round_double (1 - round_double 0.44) * round_double 25)\<rceil> = (15::int)"
    unfolding double_044 double_1_minus_044 round_double_25 double_056_times_25 by simp
  have "Simple_fixed_variables counting_engine wide_generator 0 d =
      (case narrow_int \<lceil>round_double (round_double (1 - d) * round_double 25)\<rceil> of
         Inl e \<Rightarrow> Inl e
       | Inr t \<Rightarrow> resize [1, 2, 3, 4, 5, 6, 7, 8, 9, 10, 11, 12, 13, 14, 15, 16, 17, 18, 19, 20, 21, 22, 23, 24, 0] t)" for d
    using sh
    by (simp add: Simple_fixed_variables_def wide_generator_def wide_model_def
        counting_engine_def upt_rec numeral_eq_Suc)
  from this [of "round_double 0.44"]
  have sf: "Simple_fixed_variables counting_engine wide_generator 0 (round_double 0.44)
      = Inr [1, 2, 3, 4, 5, 6, 7, 8, 9, 10, 11, 12, 13, 14, 15]"
    unfolding tgt by (simp add: resize_def)
  from wide_generator_new l d engine_ok_counting_engine c sf show ?thesis by simp
qed

text \<open>
  Claim C5, amended. For a generator built from a model whose number of variables fits
  an \<^verbatim>\<open>int\<close>, an incumbent with one value per variable, a difficulty in \<open>[0, 1]\<close> and an
  engine that draws within the range it is given, no call of the Simple generator
  fails. It fixes pairwise distinct variables of its pool (the decision variables under
  focus, else all variables), and their number is the ceiling of the double product of
  the double \<open>1 - difficulty\<close> and the pool size, which can differ from the ceiling of
  the exact product. The model returned is the one FixGivenPosition builds from
  them: every fixed variable has the domain \<open>[incumbent v, incumbent v]\<close>, every other
  variable is unchanged, the hint lists all variables with the incumbent's values, and
  the constraints and the search strategy are unchanged. With difficulty 1 no variable
  is fixed and the variables of the model returned are those of the model.
\<close>

theorem Simple_Generate_spec:
  assumes "NeighborhoodGenerator_new UsedVariables model focus = Inr g"
    and "length (solution initial_solution) = length (variables model)"
    and "length (variables model) < 2 ^ 31"
    and "0 \<le> difficulty" and "difficulty \<le> 1"
    and "engine_ok E"
  shows "\<exists>fixed m. Simple_fixed_variables E g seed difficulty = Inr fixed
           \<and> distinct fixed
           \<and> set fixed \<subseteq> set (if focus_on_decision_variables g then decision_variables g
                               else map int [0..<length (variables model)])
           \<and> int (length fixed) =
               \<lceil>round_double (round_double (1 - difficulty)
                  * real (length (if focus_on_decision_variables g
                      then decision_variables g else map int [0..<length (variables model)])))\<rceil>
           \<and> Simple_Generate E g initial_solution seed difficulty = Inr m
           \<and> FixGivenPosition initial_solution fixed model = Inr m
           \<and> length (variables m) = length (variables model)
           \<and> (\<forall>v\<in>set fixed.
                 domain (elt (variables m) v)
                   = [elt (solution initial_solution) v, elt (solution initial_solution) v])
           \<and> (\<forall>v. in_range (variables model) v \<and> v \<notin> set fixed
                 \<longrightarrow> elt (variables m) v = elt (variables model) v)
           \<and> solution_hint m =
               (if variables model = [] then None
                else Some \<lparr>vars = map int [0..<length (variables model)],
                           values = solution initial_solution\<rparr>)
           \<and> constraints m = constraints model
           \<and> search_strategy m = search_strategy model
           \<and> (difficulty = 1 \<longrightarrow> fixed = [] \<and> variables m = variables model)"
proof -
  note wf = NeighborhoodGenerator_new_wf [OF assms(1)]
  note mp = NeighborhoodGenerator_new_model [OF assms(1)]
  let ?pool = "if focus_on_decision_variables g then decision_variables g
               else map int [0..<length (variables model)]"
  from shuffle_ok [OF assms(6), of ?pool "seed_engine E seed"] obtain ys r' where
    sh: "shuffle E ?pool (seed_engine E seed) = Inr (ys, r')" and ms: "mset ys = mset ?pool"
    by blast
  from ms have len: "length ys = length ?pool" by (metis size_mset)
  have dp: "distinct ?pool"
    using wf_generatorD(3) [OF wf] by (simp add: distinct_map)
  have pr: "\<forall>v\<in>set ?pool. in_range (variables model) v"
    using pool_in_range [OF wf, of "variables model"] unfolding mp by blast
  from distinct_in_range_length [OF dp pr] len assms(3)
  have small: "length ys < 2 ^ 31" by simp
  have "(2::nat) ^ 31 < 2 ^ 53" by simp
  with small have s53: "length ys < 2 ^ 53" by (rule less_trans)
  let ?t = "\<lceil>round_double (round_double (1 - difficulty)
                * round_double (real (length ys)))\<rceil>"
  let ?fixed = "take (nat ?t) ys"
  from double_fraction_bounds [OF assms(4,5) s53]
  have t: "0 \<le> ?t" "?t \<le> int (length ys)" .
  from small have "int (length ys) < 2147483648" by simp
  with t(2) have u: "?t \<le> 2147483647" by linarith
  from t(1) have "- 2147483648 \<le> ?t" by linarith
  with u have nw: "narrow_int ?t = Inr ?t"
    by (simp only: narrow_int_def) simp
  have rs: "resize ys ?t = Inr ?fixed"
    by (rule resize_take [OF t])
  have sf: "Simple_fixed_variables E g seed difficulty = Inr ?fixed"
    using sh nw rs
    by (cases "focus_on_decision_variables g")
      (simp_all add: Simple_fixed_variables_def Let_def mp)
  from dp ms have "distinct ys" by (metis distinct_count_atmost_1 set_mset_mset count_mset)
  then have d: "distinct ?fixed" by simp
  from ms have "set ys = set ?pool" by (metis set_mset_mset)
  with set_take_subset [of "nat ?t" ys] have sub: "set ?fixed \<subseteq> set ?pool" by simp
  have tp: "?t = \<lceil>round_double (round_double (1 - difficulty) * real (length ?pool))\<rceil>"
    unfolding round_double_of_nat [OF s53] by (simp only: len)
  have lt: "int (length ?fixed) = ?t"
    using t by (simp only: length_take)
  from lt tp
  have l: "int (length ?fixed)
      = \<lceil>round_double (round_double (1 - difficulty) * real (length ?pool))\<rceil>"
    by (rule trans)
  have "\<forall>v\<in>set ?fixed. in_range (variables model) v"
    using sub pr by blast
  from FixGivenPosition_props [OF assms(2) this] obtain m where
    m: "FixGivenPosition initial_solution ?fixed model = Inr m"
    and m1: "length (variables m) = length (variables model)"
    and m2: "\<forall>v\<in>set ?fixed. domain (elt (variables m) v)
        = [elt (solution initial_solution) v, elt (solution initial_solution) v]"
    and m3: "\<forall>v. in_range (variables model) v \<and> v \<notin> set ?fixed
        \<longrightarrow> elt (variables m) v = elt (variables model) v"
    and m4: "solution_hint m =
       (if variables model = [] then None
        else Some \<lparr>vars = map int [0..<length (variables model)],
                   values = solution initial_solution\<rparr>)"
    and m5: "constraints m = constraints model"
    and m6: "search_strategy m = search_strategy model"
    by blast
  from m have gen: "Simple_Generate E g initial_solution seed difficulty = Inr m"
    using sf mp by (simp add: Simple_Generate_def)
  have e: "difficulty = 1 \<longrightarrow> ?fixed = [] \<and> variables m = variables model"
  proof
    assume "difficulty = 1"
    then have e1: "?fixed = []" by simp
    with m have "variables m = variables model"
      by (auto simp: FixGivenPosition_def split: if_splits)
    with e1 show "?fixed = [] \<and> variables m = variables model" ..
  qed
  from sf d sub l gen m m1 m2 m3 m4 m5 m6 e show ?thesis
    by blast
qed

theorem Simple_Generate_spec_witness:
  "NeighborhoodGenerator_new (\<lambda>c. c) scenario_model False = Inr scenario_generator
   \<and> length (solution scenario_solution) = length (variables scenario_model)
   \<and> length (variables scenario_model) < 2 ^ 31
   \<and> 0 \<le> round_double 0.4 \<and> round_double 0.4 \<le> 1
   \<and> engine_ok counting_engine
   \<and> Simple_fixed_variables counting_engine scenario_generator 0 (round_double 0.4)
       = Inr [1, 2, 3]
   \<and> (\<exists>m. Simple_Generate counting_engine scenario_generator scenario_solution 0
               (round_double 0.4) = Inr m
         \<and> FixGivenPosition scenario_solution [1, 2, 3] scenario_model = Inr m
         \<and> (\<forall>v\<in>set [1, 2, 3]. domain (elt (variables m) v)
               = [elt (solution scenario_solution) v, elt (solution scenario_solution) v])
         \<and> constraints m = constraints scenario_model)
   \<and> Simple_fixed_variables counting_engine scenario_generator 0 1 = Inr []
   \<and> (\<exists>m. Simple_Generate counting_engine scenario_generator scenario_solution 0 1 = Inr m
         \<and> FixGivenPosition scenario_solution [] scenario_model = Inr m
         \<and> variables m = variables scenario_model)"
proof -
  have h2: "length (solution scenario_solution) = length (variables scenario_model)"
    by (simp add: scenario_solution_def scenario_model_def)
  have h3: "length (variables scenario_model) < 2 ^ 31"
    by (simp add: scenario_model_def)
  have d0: "0 \<le> round_double 0.4" and d1: "round_double 0.4 \<le> 1"
    unfolding double_04 by simp_all
  note sf = Simple_fixed_scenario
  from Simple_Generate_spec [OF scenario_generator_new h2 h3 d0 d1 engine_ok_counting_engine,
      of 0]
  obtain fixed m where
    a: "Simple_fixed_variables counting_engine scenario_generator 0 (round_double 0.4)
        = Inr fixed"
    and b: "Simple_Generate counting_engine scenario_generator scenario_solution 0
        (round_double 0.4) = Inr m"
    and c: "FixGivenPosition scenario_solution fixed scenario_model = Inr m"
    and d: "\<forall>v\<in>set fixed. domain (elt (variables m) v)
        = [elt (solution scenario_solution) v, elt (solution scenario_solution) v]"
    and e: "constraints m = constraints scenario_model"
    by blast
  from a sf have "fixed = [1, 2, 3]" by simp
  with b c d e
  have 1: "\<exists>m. Simple_Generate counting_engine scenario_generator scenario_solution 0
          (round_double 0.4) = Inr m
      \<and> FixGivenPosition scenario_solution [1, 2, 3] scenario_model = Inr m
      \<and> (\<forall>v\<in>set [1, 2, 3]. domain (elt (variables m) v)
            = [elt (solution scenario_solution) v, elt (solution scenario_solution) v])
      \<and> constraints m = constraints scenario_model"
    by blast
  have e0: "(0::real) \<le> 1" and e1: "(1::real) \<le> 1" by simp_all
  from Simple_Generate_spec [OF scenario_generator_new h2 h3 e0 e1 engine_ok_counting_engine,
      of 0]
  obtain fixed' m' where
    a': "Simple_fixed_variables counting_engine scenario_generator 0 1 = Inr fixed'"
    and b': "Simple_Generate counting_engine scenario_generator scenario_solution 0 1 = Inr m'"
    and c': "FixGivenPosition scenario_solution fixed' scenario_model = Inr m'"
    and d': "fixed' = [] \<and> variables m' = variables scenario_model"
    by blast
  from a' b' c' d'
  have 2: "Simple_fixed_variables counting_engine scenario_generator 0 1 = Inr []
     \<and> (\<exists>m. Simple_Generate counting_engine scenario_generator scenario_solution 0 1 = Inr m
           \<and> FixGivenPosition scenario_solution [] scenario_model = Inr m
           \<and> variables m = variables scenario_model)"
    by blast
  from scenario_generator_new h2 h3 d0 d1 engine_ok_counting_engine sf 1 2 show ?thesis
    by blast
qed

section \<open>The relaxed variables of the Variable-graph walk are active\<close>

lemma add_random_variables_props:
  "add_random_variables g t rvs (vis, rel) = Inr (vis', rel') \<Longrightarrow>
     set vis' \<subseteq> set vis \<union> set rvs
     \<and> set rel' \<subseteq> set rel \<union> {v \<in> set rvs. IsActive g v = Inr True}
     \<and> (set rel \<subseteq> set vis \<longrightarrow> set rel' \<subseteq> set vis')
     \<and> (int (length rel) < t \<longrightarrow> int (length rel') \<le> t)"
proof (induction rvs arbitrary: vis rel)
  case Nil
  then show ?case by auto
next
  case (Cons v rvs)
  from Cons.prems obtain a where a: "IsActive g v = Inr a"
    by (auto split: sum.splits)
  let ?vis = "vis @ [v]" and ?rel = "if a then rel @ [v] else rel"
  show ?case
  proof (cases "int (length ?rel) \<ge> t")
    case True
    with Cons.prems a have "vis' = ?vis" "rel' = ?rel" by (simp_all add: Let_def)
    with a True show ?thesis by (cases a) auto
  next
    case False
    with Cons.prems a have "add_random_variables g t rvs (?vis, ?rel) = Inr (vis', rel')"
      by (simp add: Let_def)
    from Cons.IH [OF this] a False show ?thesis by (cases a) auto
  qed
qed

lemma vg_step_Next_relaxed:
  assumes "vg_step E g t (i, used, vis, rel, r) = Inr (Next (i', used', vis', rel', r'))"
  shows "set rel' \<subseteq> set rel \<union> {v. IsActive g v = Inr True}"
proof -
  from assms obtain rv where
    "add_random_variables g t rv (vis, rel) = Inr (vis', rel')"
    by (auto split: if_splits sum.splits prod.splits)
  from add_random_variables_props [OF this] show ?thesis by blast
qed

lemma vg_step_Done_relaxed:
  assumes "vg_step E g t (i, used, vis, rel, r) = Inr (Done rel')"
  shows "set rel' \<subseteq> set rel \<union> {v. IsActive g v = Inr True}"
proof (cases "i < length vis")
  case False
  with assms show ?thesis by auto
next
  case True
  with assms obtain rv vis' where
    "add_random_variables g t rv (vis, rel) = Inr (vis', rel')"
    by (auto split: if_splits sum.splits prod.splits)
  from add_random_variables_props [OF this] show ?thesis by blast
qed

lemma vg_loop_active:
  assumes "vg_loop E g t st = Inr rel"
    and "\<forall>v\<in>set (fst (snd (snd (snd st)))). IsActive g v = Inr True"
  shows "\<forall>v\<in>set rel. IsActive g v = Inr True"
proof (rule vg_loop_rule [OF assms(1), where
      I = "\<lambda>st. \<forall>v\<in>set (fst (snd (snd (snd st)))). IsActive g v = Inr True"])
  show "\<forall>v\<in>set (fst (snd (snd (snd st)))). IsActive g v = Inr True" by (rule assms(2))
next
  fix s s' :: "'a vg_state"
  assume "\<forall>v\<in>set (fst (snd (snd (snd s)))). IsActive g v = Inr True"
    and "vg_step E g t s = Inr (Next s')"
  then show "\<forall>v\<in>set (fst (snd (snd (snd s')))). IsActive g v = Inr True"
    using vg_step_Next_relaxed [of E g t]
    by (cases s; cases s') fastforce
next
  fix s :: "'a vg_state" and r
  assume "\<forall>v\<in>set (fst (snd (snd (snd s)))). IsActive g v = Inr True"
    and "vg_step E g t s = Inr (Done r)"
  then show "\<forall>v\<in>set r. IsActive g v = Inr True"
    using vg_step_Done_relaxed [of E g t]
    by (cases s) fastforce
qed

lemma IsActive_focus:
  assumes "wf_generator g" and "focus_on_decision_variables g"
  shows "IsActive g v = Inr True \<longleftrightarrow> v \<in> set (decision_variables g)"
  using wf_generatorD(4) [OF assms(1), of v] assms(2)
  by (auto simp: IsActive_def)

lemma IsActive_no_focus: "\<not> focus_on_decision_variables g \<Longrightarrow> IsActive g v = Inr True"
  by (simp add: IsActive_def)

lemma VariableGraph_relaxed_active:
  assumes wf: "wf_generator g" and rel: "VariableGraph_relaxed E g seed t = Inr rel"
  shows "\<forall>v\<in>set rel. IsActive g v = Inr True"
proof -
  from rel obtain x r' where
    x: "focus_on_decision_variables g \<longrightarrow> in_range (decision_variables g) x"
    and loop: "vg_loop E g t
        (0, put (replicate (length (variables (model_proto g))) False)
              (if focus_on_decision_variables g then elt (decision_variables g) x else x) True,
         [if focus_on_decision_variables g then elt (decision_variables g) x else x],
         [if focus_on_decision_variables g then elt (decision_variables g) x else x], r') = Inr rel"
    by (auto simp: VariableGraph_relaxed_def Let_def split: sum.splits prod.splits if_splits)
  let ?first = "if focus_on_decision_variables g then elt (decision_variables g) x else x"
  have "IsActive g ?first = Inr True"
  proof (cases "focus_on_decision_variables g")
    case True
    with x have "elt (decision_variables g) x \<in> set (decision_variables g)"
      by (simp add: elt_def in_range_nat)
    with True IsActive_focus [OF wf True] show ?thesis by simp
  next
    case False
    then show ?thesis by (simp add: IsActive_no_focus)
  qed
  then show ?thesis
    by (intro vg_loop_active [OF loop]) simp
qed

lemma elt_replicate: "in_range (replicate n x) i \<Longrightarrow> elt (replicate n x) i = x"
  using in_range_nat [of "replicate n x" i] by (simp add: elt_def)

lemma mark_variables_props:
  "\<forall>v\<in>set rel. in_range used v \<Longrightarrow>
     \<exists>mask. mark_variables rel used = Inr mask \<and> length mask = length used
       \<and> (\<forall>v. in_range used v \<longrightarrow> elt mask v = (elt used v \<or> v \<in> set rel))"
proof (induction rel arbitrary: used)
  case Nil
  then show ?case by simp
next
  case (Cons a rel)
  from Cons.prems have a: "in_range used a" and "\<forall>v\<in>set rel. in_range (put used a True) v"
    by simp_all
  from Cons.IH [OF this(2)] obtain mask where
    m: "mark_variables rel (put used a True) = Inr mask" "length mask = length used"
    "\<And>v. in_range used v \<Longrightarrow> elt mask v = (elt (put used a True) v \<or> v \<in> set rel)"
    by auto
  have "elt mask v = (elt used v \<or> v \<in> set (a # rel))" if "in_range used v" for v
    using m(3) [OF that] elt_put [OF a that, of True] by auto
  with m(1,2) a show ?case by simp
qed

text \<open>
  Claim C9. Every variable of the relaxed sequence that the Variable-graph generator
  builds satisfies IsActive. Hence, with focus on, the relaxed variables are decision
  variables, the mask built from them is defined, and the fixed variables that
  RelaxGivenVariables computes from it are exactly the decision variables that are not
  relaxed, in the order of the decision variables.
\<close>

theorem VariableGraph_relaxed_decision:
  assumes "NeighborhoodGenerator_new UsedVariables model focus = Inr g"
    and "VariableGraph_relaxed E g seed target = Inr relaxed"
  shows "(\<forall>v\<in>set relaxed. IsActive g v = Inr True)
       \<and> (focus_on_decision_variables g \<longrightarrow>
            set relaxed \<subseteq> set (decision_variables g)
            \<and> (\<exists>mask. mark_variables relaxed (replicate (length (variables model)) False)
                         = Inr mask
                  \<and> fixed_variables_of g mask
                      = Inr (filter (\<lambda>v. v \<notin> set relaxed) (decision_variables g))))"
proof -
  note wf = NeighborhoodGenerator_new_wf [OF assms(1)]
  note mp = NeighborhoodGenerator_new_model [OF assms(1)]
  have act: "\<forall>v\<in>set relaxed. IsActive g v = Inr True"
    by (rule VariableGraph_relaxed_active [OF wf assms(2)])
  have foc: "set relaxed \<subseteq> set (decision_variables g)
      \<and> (\<exists>mask. mark_variables relaxed (replicate (length (variables model)) False) = Inr mask
            \<and> fixed_variables_of g mask
                = Inr (filter (\<lambda>v. v \<notin> set relaxed) (decision_variables g)))"
    if f: "focus_on_decision_variables g"
  proof -
    let ?n = "length (variables model)"
    from act IsActive_focus [OF wf f] have sub: "set relaxed \<subseteq> set (decision_variables g)"
      by blast
    have dr: "in_range (replicate ?n False) v" if "v \<in> set (decision_variables g)" for v
      using pool_in_range [OF wf, of "replicate ?n False" v] that f mp by simp
    with sub have "\<forall>v\<in>set relaxed. in_range (replicate ?n False) v" by blast
    from mark_variables_props [OF this] obtain mask where
      m: "mark_variables relaxed (replicate ?n False) = Inr mask" "length mask = ?n"
      "\<And>v. in_range (replicate ?n False) v \<Longrightarrow>
         elt mask v = (elt (replicate ?n False) v \<or> v \<in> set relaxed)"
      by auto
    have "elt mask v = (v \<in> set relaxed)" if "v \<in> set (decision_variables g)" for v
      using m(3) [OF dr [OF that]] elt_replicate [OF dr [OF that]]
      by simp
    then have "filter (\<lambda>i. \<not> elt mask i) (decision_variables g)
        = filter (\<lambda>v. v \<notin> set relaxed) (decision_variables g)"
      by (intro filter_cong) simp_all
    with fixed_variables_of_eq [OF wf, of mask] m(2) mp f
    have "fixed_variables_of g mask = Inr (filter (\<lambda>v. v \<notin> set relaxed) (decision_variables g))"
      by simp
    with sub m(1) show ?thesis by blast
  qed
  from act foc show ?thesis by blast
qed

theorem VariableGraph_relaxed_decision_witness:
  "NeighborhoodGenerator_new (\<lambda>c. c) focus_model True = Inr focus_generator
   \<and> VariableGraph_relaxed counting_engine focus_generator 0 1 = Inr [1]
   \<and> focus_on_decision_variables focus_generator
   \<and> IsActive focus_generator 1 = Inr True
   \<and> set [1] \<subseteq> set (decision_variables focus_generator)
   \<and> (\<exists>mask. mark_variables [1] (replicate (length (variables focus_model)) False) = Inr mask
         \<and> fixed_variables_of focus_generator mask = Inr [2])"
proof -
  have r: "VariableGraph_relaxed counting_engine focus_generator 0 1 = Inr [1]"
    by code_simp
  have f: "focus_on_decision_variables focus_generator"
    by (simp add: focus_generator_def)
  have d: "filter (\<lambda>v. v \<notin> set [1]) (decision_variables focus_generator) = [2]"
    by (simp add: focus_generator_def)
  from VariableGraph_relaxed_decision [OF focus_generator_new r] f
  have "IsActive focus_generator 1 = Inr True"
    and "set [1] \<subseteq> set (decision_variables focus_generator)"
    and "\<exists>mask. mark_variables [1] (replicate (length (variables focus_model)) False) = Inr mask
         \<and> fixed_variables_of focus_generator mask
             = Inr (filter (\<lambda>v. v \<notin> set [1]) (decision_variables focus_generator))"
    by simp_all
  with focus_generator_new r f d show ?thesis by simp
qed

section \<open>The walks stay within reach of their start\<close>

lemma collect_vars_set:
  "collect_vars g vs (used, rv, na) = Inr (used', rv', na') \<Longrightarrow> set rv' \<subseteq> set rv \<union> set vs"
proof (induction vs arbitrary: used rv na)
  case Nil
  then show ?case by simp
next
  case (Cons v vs)
  then show ?case
    by (fastforce split: if_splits sum.splits)
qed

lemma collect_constraints_set:
  "collect_constraints g cts (used, rv, na) = Inr (used', rv', na') \<Longrightarrow>
     set rv' \<subseteq> set rv \<union> {v. \<exists>ct\<in>set cts. in_range (constraint_to_var g) ct
                              \<and> v \<in> set (elt (constraint_to_var g) ct)}"
proof (induction cts arbitrary: used rv na)
  case Nil
  then show ?case by simp
next
  case (Cons ct cts)
  from Cons.prems obtain used1 rv1 na1 where
    r: "in_range (constraint_to_var g) ct"
    and a: "collect_vars g (elt (constraint_to_var g) ct) (used, rv, na) = Inr (used1, rv1, na1)"
    and b: "collect_constraints g cts (used1, rv1, na1) = Inr (used', rv', na')"
    by (auto split: if_splits sum.splits)
  from collect_vars_set [OF a] Cons.IH [OF b] r show ?case
    by auto
qed

lemma vg_step_cases:
  assumes "vg_step E g t (i, used, vis, rel, r) = Inr x"
  shows "(\<not> i < length vis \<and> x = Done rel)
       \<or> (i < length vis \<and> in_range (var_to_constraint g) (vis ! i)
           \<and> (\<exists>used' rv na rv' r' vis' rel'.
                 collect_constraints g (elt (var_to_constraint g) (vis ! i)) (used, [], 0)
                   = Inr (used', rv, na)
                 \<and> set rv' = set rv
                 \<and> add_random_variables g t rv' (vis, rel) = Inr (vis', rel')
                 \<and> (x = Done rel' \<and> t \<le> int (length rel')
                      \<or> x = Next (i + 1, used', vis', rel', r') \<and> int (length rel') < t)))"
proof (cases "i < length vis")
  case False
  with assms show ?thesis by simp
next
  case True
  with assms have r: "in_range (var_to_constraint g) (vis ! i)"
    by (simp split: if_splits)
  with assms True obtain used' rv na where
    c: "collect_constraints g (elt (var_to_constraint g) (vis ! i)) (used, [], 0)
          = Inr (used', rv, na)"
    by (auto split: sum.splits)
  with assms True r obtain rv' r' where
    s: "(if int na + int (length rel) \<ge> t then shuffle E rv r else Inr (rv, r)) = Inr (rv', r')"
    by (auto split: sum.splits)
  then have e: "set rv' = set rv"
    by (auto split: if_splits dest: shuffle_set)
  from assms True r c s obtain vis' rel' where
    a: "add_random_variables g t rv' (vis, rel) = Inr (vis', rel')"
    by (auto split: sum.splits)
  from assms True r c s a have
    "x = Done rel' \<and> t \<le> int (length rel')
      \<or> x = Next (i + 1, used', vis', rel', r') \<and> int (length rel') < t"
    by (auto split: if_splits)
  with True r c e a show ?thesis by blast
qed

lemma vg_step_reachable:
  assumes wf: "wf_generator g"
    and step: "vg_step E g t (i, used, vis, rel, r) = Inr x"
    and inv: "\<forall>v\<in>set vis. reachable_var (constraint_to_var g) s v" "set rel \<subseteq> set vis"
      "1 < t \<longrightarrow> int (length rel) < t"
  shows "case x of
           Done rel' \<Rightarrow> (\<forall>v\<in>set rel'. reachable_var (constraint_to_var g) s v)
                         \<and> (1 < t \<longrightarrow> int (length rel') \<le> t)
         | Next (i', used', vis', rel', r') \<Rightarrow>
             (\<forall>v\<in>set vis'. reachable_var (constraint_to_var g) s v) \<and> set rel' \<subseteq> set vis'
             \<and> (1 < t \<longrightarrow> int (length rel') < t)"
proof -
  from vg_step_cases [OF step] consider
    (stop) "x = Done rel"
    | (round) used' rv na rv' r' vis' rel' where
      "i < length vis" and "in_range (var_to_constraint g) (vis ! i)"
      and "collect_constraints g (elt (var_to_constraint g) (vis ! i)) (used, [], 0)
                = Inr (used', rv, na)"
      and "set rv' = set rv"
      and "add_random_variables g t rv' (vis, rel) = Inr (vis', rel')"
      and "x = Done rel' \<and> t \<le> int (length rel')
                \<or> x = Next (i + 1, used', vis', rel', r') \<and> int (length rel') < t"
    by blast
  then show ?thesis
  proof cases
    case stop
    with inv show ?thesis by auto
  next
    case round
    note i = round(1) and r = round(2) and c = round(3) and e = round(4) and a = round(5)
      and x = round(6)
    from i inv(1) have u: "reachable_var (constraint_to_var g) s (vis ! i)" by simp
    have "reachable_var (constraint_to_var g) s v" if "v \<in> set rv" for v
    proof -
      from collect_constraints_set [OF c] that obtain ct where
        ct: "ct \<in> set (elt (var_to_constraint g) (vis ! i))"
        "in_range (constraint_to_var g) ct" "v \<in> set (elt (constraint_to_var g) ct)"
        by auto
      from graph_okD2 [OF wf_generatorD(2) [OF wf] r ct(1)]
      have "vis ! i \<in> set (elt (constraint_to_var g) ct)" .
      from reachable_var.share [OF u ct(2) this ct(3)] show ?thesis .
    qed
    with e have rv: "\<forall>v\<in>set rv'. reachable_var (constraint_to_var g) s v" by simp
    from add_random_variables_props [OF a] inv(2,3) have
      p: "set vis' \<subseteq> set vis \<union> set rv'" "set rel' \<subseteq> set vis'"
      "1 < t \<longrightarrow> int (length rel') \<le> t"
      by auto
    from p(1) inv(1) rv have v': "\<forall>v\<in>set vis'. reachable_var (constraint_to_var g) s v"
      by blast
    with p(2) have "\<forall>v\<in>set rel'. reachable_var (constraint_to_var g) s v" by blast
    with x v' p show ?thesis by auto
  qed
qed

lemma VariableGraph_relaxed_reachable:
  assumes wf: "wf_generator g" and rel: "VariableGraph_relaxed E g seed t = Inr rel"
  shows "\<exists>s. (\<forall>v\<in>set rel. reachable_var (constraint_to_var g) s v)
           \<and> (1 < t \<longrightarrow> int (length rel) \<le> t)"
proof -
  from rel obtain s used r' where
    loop: "vg_loop E g t (0, used, [s], [s], r') = Inr rel"
    by (auto simp: VariableGraph_relaxed_def Let_def split: sum.splits prod.splits if_splits)
  let ?I = "\<lambda>st. case st of (i', used', vis', rel', r') \<Rightarrow>
      (\<forall>v\<in>set vis'. reachable_var (constraint_to_var g) s v) \<and> set rel' \<subseteq> set vis'
      \<and> (1 < t \<longrightarrow> int (length rel') < t)"
  let ?Q = "\<lambda>rel'. (\<forall>v\<in>set rel'. reachable_var (constraint_to_var g) s v)
      \<and> (1 < t \<longrightarrow> int (length rel') \<le> t)"
  have "?Q rel"
  proof (rule vg_loop_rule [OF loop, where I = ?I and Q = ?Q])
    show "?I (0, used, [s], [s], r')"
      by (simp add: reachable_var.start)
  next
    fix st st'
    assume "?I st" and "vg_step E g t st = Inr (Next st')"
    then show "?I st'"
      using vg_step_reachable [OF wf, of E t _ _ _ _ _ "Next st'" s]
      by (cases st; cases st') (simp del: vg_step.simps)
  next
    fix st r
    assume "?I st" and "vg_step E g t st = Inr (Done r)"
    then show "?Q r"
      using vg_step_reachable [OF wf, of E t _ _ _ _ _ "Done r" s]
      by (cases st) (simp del: vg_step.simps)
  qed
  then show ?thesis by blast
qed

lemma set_upt_in_range: "set (map int [0..<length xs]) = {v. in_range xs v}"
proof -
  have "v \<in> int ` {0..<length xs} \<longleftrightarrow> 0 \<le> v \<and> v < int (length xs)" for v
  proof
    assume "v \<in> int ` {0..<length xs}"
    then show "0 \<le> v \<and> v < int (length xs)" by auto
  next
    assume "0 \<le> v \<and> v < int (length xs)"
    then have "v = int (nat v)" "nat v \<in> {0..<length xs}" by auto
    then show "v \<in> int ` {0..<length xs}" by (rule image_eqI)
  qed
  then show ?thesis by (auto simp: in_range_def)
qed

lemma relaxed_count_card:
  "relaxed_count g visited
     = card {v. in_range visited v \<and> elt visited v \<and> IsActive g v = Inr True}"
proof -
  let ?P = "\<lambda>v. elt visited v \<and> IsActive g v = Inr True"
  have "distinct (filter ?P (map int [0..<length visited]))"
    by (simp add: distinct_map)
  then have "length (filter ?P (map int [0..<length visited]))
      = card (set (filter ?P (map int [0..<length visited])))"
    by (simp only: distinct_card)
  also have "set (filter ?P (map int [0..<length visited]))
      = {v. in_range visited v \<and> ?P v}"
    unfolding set_filter set_upt_in_range by simp
  finally show ?thesis by (simp add: relaxed_count_def)
qed

lemma relaxed_count_put:
  assumes r: "in_range visited var" and n: "\<not> elt visited var" and a: "IsActive g var = Inr a"
  shows "relaxed_count g (put visited var True)
     = (if a then Suc (relaxed_count g visited) else relaxed_count g visited)"
proof -
  let ?S = "{v. in_range visited v \<and> elt visited v \<and> IsActive g v = Inr True}"
  let ?S' = "{v. in_range (put visited var True) v \<and> elt (put visited var True) v
                \<and> IsActive g v = Inr True}"
  have "?S \<subseteq> {v. in_range visited v}" by blast
  moreover have "finite {v. in_range visited v}"
    unfolding set_upt_in_range [symmetric] by simp
  ultimately have fin: "finite ?S" by (rule finite_subset)
  from n have notin: "var \<notin> ?S" by simp
  have e: "elt (put visited var True) v = (v = var \<or> elt visited v)" if "in_range visited v" for v
    using elt_put [OF r that, of True] by auto
  show ?thesis
  proof (cases a)
    case True
    with a r e have "?S' = insert var ?S" by auto
    with fin notin True show ?thesis by (simp add: relaxed_count_card)
  next
    case False
    with a r e have "?S' = ?S" by auto
    with False show ?thesis by (simp add: relaxed_count_card)
  qed
qed

lemma relaxed_count_replicate: "relaxed_count g (replicate n False) = 0"
proof -
  have "\<not> (in_range (replicate n False) v \<and> elt (replicate n False) v
            \<and> IsActive g v = Inr True)" for v
    using elt_replicate [of n False v] by blast
  then have "{v. in_range (replicate n False) v \<and> elt (replicate n False) v
            \<and> IsActive g v = Inr True} = {}"
    by blast
  then show ?thesis by (simp only: relaxed_count_card card.empty)
qed

lemma add_next_constraints_props:
  "add_next_constraints cts (added, nxt) = Inr (added', nxt') \<Longrightarrow>
     length added' = length added \<and> set nxt' \<subseteq> set nxt \<union> set cts"
proof (induction cts arbitrary: added nxt)
  case Nil
  then show ?case by simp
next
  case (Cons ct cts)
  show ?case
  proof (cases "elt added ct")
    case True
    with Cons.prems have "add_next_constraints cts (added, nxt) = Inr (added', nxt')"
      by (simp split: if_splits)
    from Cons.IH [OF this] show ?thesis by auto
  next
    case False
    with Cons.prems have
      "add_next_constraints cts (put added ct True, nxt @ [ct]) = Inr (added', nxt')"
      by (simp split: if_splits)
    from Cons.IH [OF this] show ?thesis by auto
  qed
qed

lemma visit_variables_props:
  "visit_variables g t vs (vis, added, nxt, num) = Inr (vis', added', nxt', num') \<Longrightarrow>
     length vis' = length vis \<and> length added' = length added
     \<and> (\<forall>v. in_range vis v \<and> elt vis' v \<longrightarrow> elt vis v \<or> v \<in> set vs)
     \<and> set nxt' \<subseteq> set nxt \<union> {ct. \<exists>v\<in>set vs. in_range (var_to_constraint g) v
                                    \<and> ct \<in> set (elt (var_to_constraint g) v)}
     \<and> (num < t \<and> num = int (relaxed_count g vis)
           \<longrightarrow> num' = int (relaxed_count g vis') \<and> num' \<le> t)"
proof (induction vs arbitrary: vis added nxt num)
  case Nil
  then show ?case by simp
next
  case (Cons var vs)
  from Cons.prems have r: "in_range vis var" by (simp split: if_splits)
  show ?case
  proof (cases "elt vis var")
    case True
    with Cons.prems r have
      "visit_variables g t vs (vis, added, nxt, num) = Inr (vis', added', nxt', num')"
      by simp
    from Cons.IH [OF this] show ?thesis by auto
  next
    case False
    with Cons.prems r obtain a where a: "IsActive g var = Inr a"
      by (auto split: sum.splits)
    let ?vis = "put vis var True" and ?num = "if a then num + 1 else num"
    have e: "elt ?vis v = (v = var \<or> elt vis v)" if "in_range vis v" for v
      using elt_put [OF r that, of True] by auto
    have cnt: "?num = int (relaxed_count g ?vis)" if "num = int (relaxed_count g vis)"
      using relaxed_count_put [OF r False a] that by simp
    show ?thesis
    proof (cases "?num = t")
      case True
      with Cons.prems r False a have res: "vis' = ?vis" "added' = added" "nxt' = nxt" "num' = ?num"
        by (simp_all add: Let_def)
      have "\<forall>v. in_range vis v \<and> elt vis' v \<longrightarrow> elt vis v \<or> v \<in> set (var # vs)"
        using e res(1) by auto
      moreover have "num < t \<and> num = int (relaxed_count g vis)
           \<longrightarrow> num' = int (relaxed_count g vis') \<and> num' \<le> t"
      proof (intro impI conjI)
        assume "num < t \<and> num = int (relaxed_count g vis)"
        with cnt have "?num = int (relaxed_count g ?vis)" by blast
        then show "num' = int (relaxed_count g vis')" unfolding res .
        from True show "num' \<le> t" unfolding res by (rule eq_refl)
      qed
      moreover have "length vis' = length vis" "length added' = length added"
        "set nxt' \<subseteq> set nxt \<union> {ct. \<exists>v\<in>set (var # vs). in_range (var_to_constraint g) v
                                    \<and> ct \<in> set (elt (var_to_constraint g) v)}"
        using res by auto
      ultimately show ?thesis by blast
    next
      case ne: False
      with Cons.prems r False a obtain added1 nxt1 where
        v: "in_range (var_to_constraint g) var"
        and n: "add_next_constraints (elt (var_to_constraint g) var) (added, nxt)
                  = Inr (added1, nxt1)"
        and rest: "visit_variables g t vs (?vis, added1, nxt1, ?num)
                     = Inr (vis', added', nxt', num')"
        by (auto simp: Let_def split: if_splits sum.splits)
      note ih = Cons.IH [OF rest]
      note np = add_next_constraints_props [OF n]
      from ih have l: "length vis' = length vis" "length added' = length added"
        using np by simp_all
      have m: "\<forall>v. in_range vis v \<and> elt vis' v \<longrightarrow> elt vis v \<or> v \<in> set (var # vs)"
      proof (intro allI impI)
        fix v assume h: "in_range vis v \<and> elt vis' v"
        then have "in_range ?vis v" by simp
        with ih h have "elt ?vis v \<or> v \<in> set vs" by blast
        with e h show "elt vis v \<or> v \<in> set (var # vs)" by auto
      qed
      have q: "set nxt' \<subseteq> set nxt \<union> {ct. \<exists>v\<in>set (var # vs). in_range (var_to_constraint g) v
                                    \<and> ct \<in> set (elt (var_to_constraint g) v)}"
      proof
        fix ct assume "ct \<in> set nxt'"
        with ih have "ct \<in> set nxt1 \<or> (\<exists>v\<in>set vs. in_range (var_to_constraint g) v
                                    \<and> ct \<in> set (elt (var_to_constraint g) v))"
          by blast
        with np v show "ct \<in> set nxt \<union> {ct. \<exists>v\<in>set (var # vs). in_range (var_to_constraint g) v
                                    \<and> ct \<in> set (elt (var_to_constraint g) v)}"
          by auto
      qed
      have c: "num' = int (relaxed_count g vis') \<and> num' \<le> t"
        if "num < t \<and> num = int (relaxed_count g vis)"
      proof -
        from that ne have "?num < t" by (cases a) simp_all
        with cnt that ih show ?thesis by blast
      qed
      from l m q c show ?thesis by blast
    qed
  qed
qed

lemma set_butlast_swap:
  assumes "in_range xs i" and "xs \<noteq> []"
  shows "set (butlast (swap xs i (int (length xs) - 1))) \<subseteq> set xs"
proof -
  from assms(2) have "in_range xs (int (length xs) - 1)"
    by (cases xs) (simp_all add: in_range_def)
  from mset_swap_elt [OF assms(1) this] have "set (swap xs i (int (length xs) - 1)) = set xs"
    by (metis set_mset_mset)
  with in_set_butlastD show ?thesis by fastforce
qed

lemma cg_step_cases:
  assumes "cg_step E g t ((vis, added, nxt, num), r) = Inr x"
  shows "(x = Done vis \<and> (\<not> num < t \<or> nxt = []))
       \<or> (num < t \<and> nxt \<noteq> []
           \<and> (\<exists>i rv st' r2.
                 in_range nxt i \<and> in_range (constraint_to_var g) (elt nxt i)
                 \<and> set rv = set (elt (constraint_to_var g) (elt nxt i))
                 \<and> visit_variables g t rv
                      (vis, added, butlast (swap nxt i (int (length nxt) - 1)), num) = Inr st'
                 \<and> x = Next (st', r2)))"
proof (cases "num < t \<and> nxt \<noteq> []")
  case False
  with assms have "x = Done vis" by (auto split: if_splits)
  with False show ?thesis by blast
next
  case True
  with assms obtain i r1 where
    d: "uniform_int_distribution E 0 (int (length nxt) - 1) r = Inr (i, r1)"
    by (auto split: sum.splits)
  with assms True have i: "in_range nxt i" and c: "in_range (constraint_to_var g) (elt nxt i)"
    by (auto simp: Let_def split: if_splits)
  with assms True d obtain rv r2 where
    s: "shuffle E (elt (constraint_to_var g) (elt nxt i)) r1 = Inr (rv, r2)"
    by (auto simp: Let_def split: sum.splits)
  with assms True d i c obtain st' where
    "visit_variables g t rv (vis, added, butlast (swap nxt i (int (length nxt) - 1)), num)
       = Inr st'" "x = Next (st', r2)"
    by (auto simp: Let_def split: sum.splits)
  with True i c shuffle_set [OF s] show ?thesis by blast
qed

lemma cg_step_reachable:
  assumes wf: "wf_generator g"
    and step: "cg_step E g t ((vis, added, nxt, num), r) = Inr x"
    and inv: "\<forall>c\<in>set nxt. reachable_constraint (constraint_to_var g) c0 c"
      "\<forall>v. in_range vis v \<and> elt vis v \<longrightarrow>
         (\<exists>c. reachable_constraint (constraint_to_var g) c0 c
            \<and> in_range (constraint_to_var g) c \<and> v \<in> set (elt (constraint_to_var g) c))"
      "num = int (relaxed_count g vis)" "num \<le> t"
  shows "case x of
           Done vis' \<Rightarrow> vis' = vis
         | Next ((vis', added', nxt', num'), r') \<Rightarrow>
             length vis' = length vis
             \<and> (\<forall>c\<in>set nxt'. reachable_constraint (constraint_to_var g) c0 c)
             \<and> (\<forall>v. in_range vis' v \<and> elt vis' v \<longrightarrow>
                   (\<exists>c. reachable_constraint (constraint_to_var g) c0 c
                      \<and> in_range (constraint_to_var g) c
                      \<and> v \<in> set (elt (constraint_to_var g) c)))
             \<and> num' = int (relaxed_count g vis') \<and> num' \<le> t"
proof -
  from cg_step_cases [OF step] consider
    (stop) "x = Done vis"
    | (round) i rv vis' added' nxt' num' r2 where
      "num < t" and "nxt \<noteq> []" and "in_range nxt i"
      and "in_range (constraint_to_var g) (elt nxt i)"
      and "set rv = set (elt (constraint_to_var g) (elt nxt i))"
      and "visit_variables g t rv
             (vis, added, butlast (swap nxt i (int (length nxt) - 1)), num)
             = Inr (vis', added', nxt', num')"
      and "x = Next ((vis', added', nxt', num'), r2)"
    by (metis prod_cases4)
  then show ?thesis
  proof cases
    case stop
    then show ?thesis by simp
  next
    case round
    note i = round(3) and ci = round(4) and rv = round(5) and vv = round(6)
    let ?ci = "elt nxt i"
    let ?nxt = "butlast (swap nxt i (int (length nxt) - 1))"
    note p = visit_variables_props [OF vv]
    from i have "?ci \<in> set nxt" by (simp add: elt_def in_range_nat)
    with inv(1) have rc: "reachable_constraint (constraint_to_var g) c0 ?ci" by blast
    have n': "\<forall>c\<in>set nxt'. reachable_constraint (constraint_to_var g) c0 c"
    proof
      fix c assume "c \<in> set nxt'"
      with p have "c \<in> set ?nxt \<or> (\<exists>v\<in>set rv. in_range (var_to_constraint g) v
                                    \<and> c \<in> set (elt (var_to_constraint g) v))"
        by blast
      then show "reachable_constraint (constraint_to_var g) c0 c"
      proof
        assume "c \<in> set ?nxt"
        with set_butlast_swap [OF i round(2)] inv(1) show ?thesis by blast
      next
        assume "\<exists>v\<in>set rv. in_range (var_to_constraint g) v
                                    \<and> c \<in> set (elt (var_to_constraint g) v)"
        then obtain v where v: "v \<in> set rv" "in_range (var_to_constraint g) v"
          "c \<in> set (elt (var_to_constraint g) v)" by blast
        note ok = wf_generatorD(2) [OF wf]
        from reachable_constraint.share [OF rc ci graph_okD1 [OF ok v(2,3)] _
            graph_okD2 [OF ok v(2,3)]] v(1) rv
        show ?thesis by simp
      qed
    qed
    have v': "\<forall>v. in_range vis' v \<and> elt vis' v \<longrightarrow>
                   (\<exists>c. reachable_constraint (constraint_to_var g) c0 c
                      \<and> in_range (constraint_to_var g) c
                      \<and> v \<in> set (elt (constraint_to_var g) c))"
    proof (intro allI impI)
      fix v assume h: "in_range vis' v \<and> elt vis' v"
      with p have r: "in_range vis v" by (simp add: in_range_def)
      with p h have "elt vis v \<or> v \<in> set rv" by blast
      then show "\<exists>c. reachable_constraint (constraint_to_var g) c0 c
                      \<and> in_range (constraint_to_var g) c
                      \<and> v \<in> set (elt (constraint_to_var g) c)"
      proof
        assume "elt vis v"
        with inv(2) r show ?thesis by blast
      next
        assume "v \<in> set rv"
        with rv rc ci show ?thesis by blast
      qed
    qed
    from p round(1) inv(3) have "num' = int (relaxed_count g vis') \<and> num' \<le> t"
      by blast
    with p n' v' round(7) show ?thesis by simp
  qed
qed

lemma cg_state_cases:
  fixes st :: "'r cg_state"
  obtains vis added nxt num r where "st = ((vis, added, nxt, num), r)"
proof (cases st)
  case (Pair q r)
  with that show ?thesis by (cases q) auto
qed

lemma cg_invariant_Next:
  assumes wf: "wf_generator g" and inv: "cg_invariant g c0 t st"
    and step: "cg_step E g t st = Inr (Next st')"
  shows "cg_invariant g c0 t st'"
proof -
  obtain vis added nxt num r where st: "st = ((vis, added, nxt, num), r)"
    by (rule cg_state_cases)
  obtain vis' added' nxt' num' r' where st': "st' = ((vis', added', nxt', num'), r')"
    by (rule cg_state_cases)
  from inv have i: "length vis = length (variables (model_proto g))"
    "\<forall>c\<in>set nxt. reachable_constraint (constraint_to_var g) c0 c"
    "\<forall>v. in_range vis v \<and> elt vis v \<longrightarrow>
         (\<exists>c. reachable_constraint (constraint_to_var g) c0 c
            \<and> in_range (constraint_to_var g) c \<and> v \<in> set (elt (constraint_to_var g) c))"
    "num = int (relaxed_count g vis)" "num \<le> t"
    unfolding cg_invariant_def cg_reached_def st prod.case by blast+
  from cg_step_reachable [OF wf step [unfolded st st'] i(2-5)] i(1)
  show ?thesis
    unfolding cg_invariant_def cg_reached_def st' prod.case step.case
    by (elim conjE) (intro conjI; (assumption | simp))
qed

lemma cg_invariant_Done:
  assumes inv: "cg_invariant g c0 t st" and step: "cg_step E g t st = Inr (Done vis')"
  shows "cg_reached g c0 vis' \<and> int (relaxed_count g vis') \<le> t
       \<and> length vis' = length (variables (model_proto g))"
proof -
  obtain vis added nxt num r where st: "st = ((vis, added, nxt, num), r)"
    by (rule cg_state_cases)
  from cg_step_cases [OF step [unfolded st]] have "vis' = vis" by blast
  with inv show ?thesis
    unfolding cg_invariant_def st prod.case by blast
qed

lemma ConstraintGraph_visited_reachable:
  assumes wf: "wf_generator g" and t: "0 < t"
    and vis: "ConstraintGraph_visited E g seed t = Inr vis"
  shows "\<exists>c0. in_range (constraint_to_var g) c0
           \<and> cg_reached g c0 vis
           \<and> int (relaxed_count g vis) \<le> t
           \<and> length vis = length (variables (model_proto g))"
proof -
  let ?n = "length (variables (model_proto g))"
  from vis obtain c0 added r' where
    c0: "in_range (constraint_to_var g) c0"
    and loop: "cg_loop E g t ((replicate ?n False, added, [c0], 0), r') = Inr vis"
    by (auto simp: ConstraintGraph_visited_def Let_def in_range_def
        split: sum.splits prod.splits if_splits)
  have "cg_reached g c0 vis \<and> int (relaxed_count g vis) \<le> t \<and> length vis = ?n"
  proof (rule cg_loop_rule [OF loop, where I = "cg_invariant g c0 t"])
    have "\<not> (in_range (replicate ?n False) v \<and> elt (replicate ?n False) v)" for v
      using elt_replicate [of ?n False v] by blast
    then have a: "cg_reached g c0 (replicate ?n False)"
      unfolding cg_reached_def by blast
    have b: "\<forall>c\<in>set [c0]. reachable_constraint (constraint_to_var g) c0 c"
      by (simp add: reachable_constraint.start)
    have c: "(0::int) = int (relaxed_count g (replicate ?n False))"
      by (simp add: relaxed_count_replicate)
    have d: "length (replicate ?n False) = ?n" by simp
    from t have e: "0 \<le> t" by simp
    show "cg_invariant g c0 t ((replicate ?n False, added, [c0], 0), r')"
      unfolding cg_invariant_def prod.case using a b c d e by blast
  next
    fix st st'
    assume "cg_invariant g c0 t st" and "cg_step E g t st = Inr (Next st')"
    then show "cg_invariant g c0 t st'" by (rule cg_invariant_Next [OF wf])
  next
    fix st r
    assume "cg_invariant g c0 t st" and "cg_step E g t st = Inr (Done r)"
    then show "cg_reached g c0 r \<and> int (relaxed_count g r) \<le> t \<and> length r = ?n"
      by (rule cg_invariant_Done)
  qed
  with c0 show ?thesis by blast
qed

lemma add_used_variables_c2v:
  "add_used_variables n ct vs (v2c, c2v) = Inr (v2c', c2v') \<Longrightarrow>
     c2v' = put c2v ct (elt c2v ct @ vs)"
proof (induction vs arbitrary: v2c c2v)
  case Nil
  then show ?case by (simp add: put_def elt_def)
next
  case (Cons var vs)
  from Cons.prems have r: "in_range c2v ct"
    and rest: "add_used_variables n ct vs
        (put v2c var (elt v2c var @ [ct]), put c2v ct (elt c2v ct @ [var])) = Inr (v2c', c2v')"
    by (simp_all split: if_splits)
  from Cons.IH [OF rest] r show ?case
    by (simp add: put_def elt_def in_range_nat)
qed

lemma add_constraints_c2v:
  "add_constraints UV n cs k (v2c, pre @ replicate (length cs) []) = Inr (v2c', c2v') \<Longrightarrow>
     k = int (length pre) \<Longrightarrow> c2v' = pre @ map UV cs"
proof (induction cs arbitrary: k v2c pre)
  case Nil
  then show ?case by simp
next
  case (Cons c cs)
  let ?c2v = "pre @ replicate (length (c # cs)) []"
  from Cons.prems(1) obtain v2c1 c2v1 where
    a: "add_used_variables n k (UV c) (v2c, ?c2v) = Inr (v2c1, c2v1)"
    and b: "add_constraints UV n cs (k + 1) (v2c1, c2v1) = Inr (v2c', c2v')"
    by (auto split: sum.splits)
  from add_used_variables_c2v [OF a] Cons.prems(2)
  have "c2v1 = (pre @ [UV c]) @ replicate (length cs) []"
    by (simp add: put_def elt_def nth_append list_update_append)
  with b have "add_constraints UV n cs (k + 1) (v2c1, (pre @ [UV c]) @ replicate (length cs) [])
      = Inr (v2c', c2v')" by simp
  from Cons.IH [OF this] Cons.prems(2) show ?case by simp
qed

lemma NeighborhoodGenerator_new_c2v:
  assumes "NeighborhoodGenerator_new UsedVariables model focus = Inr g"
  shows "constraint_to_var g = map UsedVariables (constraints model)"
proof -
  from assms obtain v2c where
    "add_constraints UsedVariables (length (variables model)) (constraints model) 0
       (replicate (length (variables model)) [], [] @ replicate (length (constraints model)) [])
       = Inr (v2c, constraint_to_var g)"
    by (auto simp: NeighborhoodGenerator_new_def Let_def split: sum.splits prod.splits)
  from add_constraints_c2v [OF this] show ?thesis by simp
qed

lemma relaxed_count_no_focus:
  assumes "\<not> focus_on_decision_variables g"
  shows "relaxed_count g visited = length (filter (\<lambda>b. b) visited)"
proof -
  have "relaxed_count g visited
      = length (filter (\<lambda>b. b) (map (\<lambda>k. visited ! k) [0..<length visited]))"
    using assms
    by (simp add: relaxed_count_def IsActive_no_focus filter_map o_def elt_def)
  then show ?thesis by (simp add: map_nth)
qed

text \<open>On the scenario model with target size 1 the Variable-graph walk started at the
  variable 0 relaxes two variables: the loop tests the size of \<^verbatim>\<open>relaxed_variables\<close>
  only after it has appended to it.\<close>

lemma VariableGraph_target_one:
  "target_size scenario_generator (round_double 0.2) = Inr 1
   \<and> VariableGraph_relaxed counting_engine scenario_generator 0 1 = Inr [0, 1]"
proof -
  have "target_size scenario_generator (round_double 0.2) = Inr 1"
    unfolding double_02 using double_02_times_5
    by (simp add: target_size_def num_active_vars_def scenario_generator_def scenario_model_def)
  moreover have "VariableGraph_relaxed counting_engine scenario_generator 0 1 = Inr [0, 1]"
    by code_simp
  ultimately show ?thesis by simp
qed

text \<open>Claim C6 as stated fails for the Constraint-graph generator under focus: on the
  model with three variables in one constraint, of which 1 and 2 are decision
  variables, and target size 1, the walk visits the variable 0, which does not count,
  and then the variable 1. The model returned fixes the variable 2 only, so two
  variables are left free.\<close>

theorem walk_bounded_counterexample:
  "target_size focus_generator 0.5 = Inr 1
   \<and> 1 < num_active_vars focus_generator
   \<and> ConstraintGraph_visited counting_engine focus_generator 5 1 = Inr [True, True, False]
   \<and> ConstraintGraph_Generate counting_engine focus_generator focus_solution 5 0.5 =
       Inr (focus_model\<lparr>variables :=
              [\<lparr>name = [], domain = [0, 10]\<rparr>, \<lparr>name = [], domain = [0, 10]\<rparr>,
               \<lparr>name = [], domain = [9, 9]\<rparr>],
            solution_hint := Some \<lparr>vars = [0, 1, 2], values = [7, 8, 9]\<rparr>\<rparr>)
   \<and> \<not> int (length (filter (\<lambda>b. b) [True, True, False])) \<le> 1"
proof -
  have t: "target_size focus_generator 0.5 = Inr 1"
    using round_double_1 by (simp add: target_size_def num_active_vars_def focus_generator_def)
  have n: "num_active_vars focus_generator = 2"
    by (simp add: num_active_vars_def focus_generator_def)
  have v: "ConstraintGraph_visited counting_engine focus_generator 5 1 = Inr [True, True, False]"
    by code_simp
  have r: "RelaxGivenVariables focus_generator focus_solution [True, True, False] =
       Inr (focus_model\<lparr>variables :=
              [\<lparr>name = [], domain = [0, 10]\<rparr>, \<lparr>name = [], domain = [0, 10]\<rparr>,
               \<lparr>name = [], domain = [9, 9]\<rparr>],
            solution_hint := Some \<lparr>vars = [0, 1, 2], values = [7, 8, 9]\<rparr>\<rparr>)"
    by (simp add: RelaxGivenVariables_def fixed_variables_of_def FixGivenPosition_def
        focus_generator_def focus_model_def focus_solution_def in_range_def elt_def put_def
        add_hint_def upt_rec numeral_eq_Suc)
  from t n v r show ?thesis
    by (simp add: ConstraintGraph_Generate_def)
qed

text \<open>
  Claim C6, amended. Let the generator be built from a model, so that
  \<^verbatim>\<open>constraint_to_var_\<close> lists the used variables of each constraint. Every variable of
  the relaxed sequence of the Variable-graph walk is active and within reach of one start
  variable, by steps between variables of a common constraint, and for a target size of
  at least 2 the sequence is not longer than the target size. Every variable visited by
  the Constraint-graph walk lies in a constraint within reach of one start constraint, by
  steps between constraints that share a variable; the visited variables that are active
  number at most the target size, and with focus off these are all the visited variables.
\<close>

theorem walk_reachable_bounded:
  assumes "NeighborhoodGenerator_new UsedVariables model focus = Inr g"
  shows "constraint_to_var g = map UsedVariables (constraints model)
       \<and> (VariableGraph_relaxed E g seed target = Inr relaxed \<longrightarrow>
            (\<exists>s. \<forall>v\<in>set relaxed. reachable_var (constraint_to_var g) s v
                                  \<and> IsActive g v = Inr True)
            \<and> (1 < target \<longrightarrow> int (length relaxed) \<le> target))
       \<and> (0 < target \<and> ConstraintGraph_visited E g seed target = Inr visited \<longrightarrow>
            (\<exists>c0. in_range (constraint_to_var g) c0
               \<and> (\<forall>v. in_range visited v \<and> elt visited v \<longrightarrow>
                     (\<exists>c. reachable_constraint (constraint_to_var g) c0 c
                        \<and> in_range (constraint_to_var g) c
                        \<and> v \<in> set (elt (constraint_to_var g) c))))
            \<and> int (relaxed_count g visited) \<le> target
            \<and> (\<not> focus_on_decision_variables g \<longrightarrow>
                  int (length (filter (\<lambda>b. b) visited)) \<le> target))"
proof -
  note wf = NeighborhoodGenerator_new_wf [OF assms]
  have 1: "constraint_to_var g = map UsedVariables (constraints model)"
    by (rule NeighborhoodGenerator_new_c2v [OF assms])
  have 2: "(\<exists>s. \<forall>v\<in>set relaxed. reachable_var (constraint_to_var g) s v
                                  \<and> IsActive g v = Inr True)
            \<and> (1 < target \<longrightarrow> int (length relaxed) \<le> target)"
    if r: "VariableGraph_relaxed E g seed target = Inr relaxed"
    using VariableGraph_relaxed_reachable [OF wf r] VariableGraph_relaxed_active [OF wf r]
    by blast
  have 3: "(\<exists>c0. in_range (constraint_to_var g) c0
               \<and> (\<forall>v. in_range visited v \<and> elt visited v \<longrightarrow>
                     (\<exists>c. reachable_constraint (constraint_to_var g) c0 c
                        \<and> in_range (constraint_to_var g) c
                        \<and> v \<in> set (elt (constraint_to_var g) c))))
            \<and> int (relaxed_count g visited) \<le> target
            \<and> (\<not> focus_on_decision_variables g \<longrightarrow>
                  int (length (filter (\<lambda>b. b) visited)) \<le> target)"
    if t: "0 < target" and v: "ConstraintGraph_visited E g seed target = Inr visited"
  proof -
    from ConstraintGraph_visited_reachable [OF wf t v] obtain c0 where
      c: "in_range (constraint_to_var g) c0" "cg_reached g c0 visited"
      "int (relaxed_count g visited) \<le> target"
      by blast
    from c(3) have "int (length (filter (\<lambda>b. b) visited)) \<le> target"
      if "\<not> focus_on_decision_variables g"
      using relaxed_count_no_focus [OF that, of visited] by simp
    with c show ?thesis unfolding cg_reached_def by blast
  qed
  from 1 2 3 show ?thesis by blast
qed

theorem walk_reachable_bounded_witness:
  "NeighborhoodGenerator_new (\<lambda>c. c) scenario_model False = Inr scenario_generator
   \<and> VariableGraph_relaxed counting_engine scenario_generator 2 2 = Inr [2, 1]
   \<and> ConstraintGraph_visited counting_engine scenario_generator 2 2
       = Inr [False, False, False, True, True]
   \<and> (\<exists>s. \<forall>v\<in>set [2, 1]. reachable_var (constraint_to_var scenario_generator) s v)
   \<and> int (length [2 :: int, 1]) \<le> 2
   \<and> (\<exists>c0. \<forall>v. in_range [False, False, False, True, True] v
                 \<and> elt [False, False, False, True, True] v \<longrightarrow>
              (\<exists>c. reachable_constraint (constraint_to_var scenario_generator) c0 c
                 \<and> v \<in> set (elt (constraint_to_var scenario_generator) c)))
   \<and> int (length (filter (\<lambda>b. b) [False, False, False, True, True])) \<le> 2"
proof -
  have r: "VariableGraph_relaxed counting_engine scenario_generator 2 2 = Inr [2, 1]"
    by code_simp
  have v: "ConstraintGraph_visited counting_engine scenario_generator 2 2
       = Inr [False, False, False, True, True]"
    by code_simp
  have f: "\<not> focus_on_decision_variables scenario_generator"
    by (simp add: scenario_generator_def)
  have t: "(0::int) < 2 \<and> (1::int) < 2" by simp
  from walk_reachable_bounded [OF scenario_generator_new, of counting_engine 2 2 "[2, 1]"
      "[False, False, False, True, True]"] r v f t
  have "(\<exists>s. \<forall>v\<in>set [2, 1]. reachable_var (constraint_to_var scenario_generator) s v)
   \<and> int (length [2 :: int, 1]) \<le> 2
   \<and> (\<exists>c0. \<forall>v. in_range [False, False, False, True, True] v
                 \<and> elt [False, False, False, True, True] v \<longrightarrow>
              (\<exists>c. reachable_constraint (constraint_to_var scenario_generator) c0 c
                 \<and> v \<in> set (elt (constraint_to_var scenario_generator) c)))
   \<and> int (length (filter (\<lambda>b. b) [False, False, False, True, True])) \<le> 2"
    by blast
  with scenario_generator_new r v show ?thesis by blast
qed

section \<open>The Constraint-graph walk returns\<close>

lemma in_range_cong_length: "length xs = length ys \<Longrightarrow> in_range xs i = in_range ys i"
  by (simp add: in_range_def)

lemma add_next_constraints_ok:
  "\<forall>ct\<in>set cts. in_range added ct \<Longrightarrow>
     \<exists>added' nxt'. add_next_constraints cts (added, nxt) = Inr (added', nxt')"
proof (induction cts arbitrary: added nxt)
  case Nil
  then show ?case by simp
next
  case (Cons ct cts)
  from Cons.prems have r: "in_range added ct" and
    a: "\<forall>c\<in>set cts. in_range added c" "\<forall>c\<in>set cts. in_range (put added ct True) c"
    by simp_all
  show ?case
  proof (cases "elt added ct")
    case True
    with Cons.IH [OF a(1), of nxt] r show ?thesis by simp
  next
    case False
    with Cons.IH [OF a(2), of "nxt @ [ct]"] r show ?thesis by simp
  qed
qed

lemma IsActive_ok:
  assumes "wf_generator g" and "in_range (var_to_constraint g) v"
  shows "\<exists>a. IsActive g v = Inr a"
proof (cases "focus_on_decision_variables g")
  case True
  from wf_generatorD(1,5) [OF assms(1)] True
  have "length (decision_variables_set g) = length (var_to_constraint g)" by simp
  from in_range_cong_length [OF this, of v] assms(2) True show ?thesis
    by (simp add: IsActive_def)
next
  case False
  then show ?thesis by (auto simp: IsActive_def)
qed

lemma visit_variables_ok:
  assumes wf: "wf_generator g"
  shows "\<forall>v\<in>set vs. in_range (var_to_constraint g) v \<Longrightarrow>
     length vis = length (var_to_constraint g) \<Longrightarrow>
     length added = length (constraint_to_var g) \<Longrightarrow>
     \<exists>st'. visit_variables g t vs (vis, added, nxt, num) = Inr st'"
proof (induction vs arbitrary: vis added nxt num)
  case Nil
  then show ?case by simp
next
  case (Cons var vs)
  from Cons.prems have v: "in_range (var_to_constraint g) var"
    and vs: "\<forall>v\<in>set vs. in_range (var_to_constraint g) v" by simp_all
  from v Cons.prems(2) have r: "in_range vis var" by (simp add: in_range_def)
  show ?case
  proof (cases "elt vis var")
    case True
    with Cons.IH [OF vs Cons.prems(2,3), of nxt num] r show ?thesis by simp
  next
    case False
    from IsActive_ok [OF wf v] obtain a where a: "IsActive g var = Inr a" ..
    let ?vis = "put vis var True" and ?num = "if a then num + 1 else num"
    show ?thesis
    proof (cases "?num = t")
      case True
      with r False a show ?thesis by (simp add: Let_def)
    next
      case ne: False
      have "\<forall>ct\<in>set (elt (var_to_constraint g) var). in_range added ct"
      proof
        fix ct assume "ct \<in> set (elt (var_to_constraint g) var)"
        from graph_okD1 [OF wf_generatorD(2) [OF wf] v this] Cons.prems(3)
        show "in_range added ct" by (simp add: in_range_def)
      qed
      from add_next_constraints_ok [OF this, of nxt] obtain added1 nxt1 where
        n: "add_next_constraints (elt (var_to_constraint g) var) (added, nxt)
              = Inr (added1, nxt1)" by blast
      from add_next_constraints_props [OF n] Cons.prems(3)
      have l: "length added1 = length (constraint_to_var g)" by simp
      from Cons.prems(2) have "length ?vis = length (var_to_constraint g)" by simp
      from Cons.IH [OF vs this l, of nxt1 ?num] obtain st' where
        "visit_variables g t vs (?vis, added1, nxt1, ?num) = Inr st'" ..
      with r False a ne v n show ?thesis
        by (simp add: Let_def) (metis prod_cases4)
    qed
  qed
qed

lemma cg_safe_Next:
  assumes wf: "wf_generator g" and safe: "cg_safe g st"
    and step: "cg_step E g t st = Inr (Next st')"
  shows "cg_safe g st'"
proof -
  obtain vis added nxt num r where st: "st = ((vis, added, nxt, num), r)"
    by (rule cg_state_cases)
  obtain vis' added' nxt' num' r' where st': "st' = ((vis', added', nxt', num'), r')"
    by (rule cg_state_cases)
  from safe have s: "length vis = length (var_to_constraint g)"
    "length added = length (constraint_to_var g)"
    "\<forall>c\<in>set nxt. in_range (constraint_to_var g) c"
    unfolding cg_safe_def st prod.case by blast+
  from cg_step_cases [OF step [unfolded st st']] obtain i rv where
    i: "in_range nxt i" "nxt \<noteq> []"
    and vv: "visit_variables g t rv
               (vis, added, butlast (swap nxt i (int (length nxt) - 1)), num)
               = Inr (vis', added', nxt', num')"
    by auto
  note p = visit_variables_props [OF vv]
  have "in_range (constraint_to_var g) c" if "c \<in> set nxt'" for c
  proof -
    from p that have "c \<in> set (butlast (swap nxt i (int (length nxt) - 1)))
        \<or> (\<exists>v\<in>set rv. in_range (var_to_constraint g) v
               \<and> c \<in> set (elt (var_to_constraint g) v))"
      by blast
    then show ?thesis
    proof
      assume "c \<in> set (butlast (swap nxt i (int (length nxt) - 1)))"
      with set_butlast_swap [OF i] s(3) show ?thesis by blast
    next
      assume "\<exists>v\<in>set rv. in_range (var_to_constraint g) v
               \<and> c \<in> set (elt (var_to_constraint g) v)"
      with graph_okD1 [OF wf_generatorD(2) [OF wf]] show ?thesis by blast
    qed
  qed
  with p s(1,2) show ?thesis
    unfolding cg_safe_def st' prod.case by simp
qed

lemma cg_step_ok:
  assumes wf: "wf_generator g" and E: "engine_ok E" and safe: "cg_safe g st"
  shows "\<exists>x. cg_step E g t st = Inr x"
proof -
  obtain vis added nxt num r where st: "st = ((vis, added, nxt, num), r)"
    by (rule cg_state_cases)
  from safe have s: "length vis = length (var_to_constraint g)"
    "length added = length (constraint_to_var g)"
    "\<forall>c\<in>set nxt. in_range (constraint_to_var g) c"
    unfolding cg_safe_def st prod.case by blast+
  show ?thesis
  proof (cases "num < t \<and> nxt \<noteq> []")
    case False
    then show ?thesis unfolding st by auto
  next
    case True
    then have "0 \<le> int (length nxt) - 1" by (cases nxt) simp_all
    from uniform_int_distribution_ok [OF E this, of r] obtain i r1 where
      d: "uniform_int_distribution E 0 (int (length nxt) - 1) r = Inr (i, r1)"
      and i: "0 \<le> i" "i \<le> int (length nxt) - 1"
      by blast
    from i have ir: "in_range nxt i" by (simp add: in_range_def)
    then have "elt nxt i \<in> set nxt" by (simp add: elt_def in_range_nat)
    with s(3) have c: "in_range (constraint_to_var g) (elt nxt i)" by blast
    from shuffle_ok [OF E, of "elt (constraint_to_var g) (elt nxt i)" r1] obtain rv r2 where
      sh: "shuffle E (elt (constraint_to_var g) (elt nxt i)) r1 = Inr (rv, r2)"
      and ms: "mset rv = mset (elt (constraint_to_var g) (elt nxt i))"
      by blast
    from ms have "set rv = set (elt (constraint_to_var g) (elt nxt i))"
      by (metis set_mset_mset)
    with graph_okD3 [OF wf_generatorD(2) [OF wf] c]
    have "\<forall>v\<in>set rv. in_range (var_to_constraint g) v" by blast
    from visit_variables_ok [OF wf this s(1,2),
        of t "butlast (swap nxt i (int (length nxt) - 1))" num]
    obtain st' where
      "visit_variables g t rv (vis, added, butlast (swap nxt i (int (length nxt) - 1)), num)
         = Inr st'" ..
    with True d ir c sh show ?thesis unfolding st by (simp add: Let_def)
  qed
qed

lemma ConstraintGraph_visited_ok:
  assumes wf: "wf_generator g" and E: "engine_ok E" and c: "constraint_to_var g \<noteq> []"
  shows "\<exists>vis. ConstraintGraph_visited E g seed t = Inr vis"
proof -
  let ?n = "length (variables (model_proto g))"
  let ?added = "replicate (length (constraint_to_var g)) False"
  from c have "0 \<le> int (length (constraint_to_var g)) - 1"
    by (cases "constraint_to_var g") simp_all
  from uniform_int_distribution_ok [OF E this, of "seed_engine E seed"] obtain c0 r' where
    d: "uniform_int_distribution E 0 (int (length (constraint_to_var g)) - 1) (seed_engine E seed)
          = Inr (c0, r')"
    and c0: "0 \<le> c0" "c0 \<le> int (length (constraint_to_var g)) - 1"
    by blast
  from c0 have r: "in_range ?added c0" "in_range (constraint_to_var g) c0"
    by (simp_all add: in_range_def)
  have init: "cg_safe g ((replicate ?n False, put ?added c0 True, [c0], 0), r')"
    unfolding cg_safe_def prod.case using r(2) wf_generatorD(1) [OF wf] by simp
  have "\<exists>vis. cg_loop E g t ((replicate ?n False, put ?added c0 True, [c0], 0), r') = Inr vis"
  proof (rule cg_loop_total [where I = "cg_safe g"])
    show "cg_safe g ((replicate ?n False, put ?added c0 True, [c0], 0), r')" by (rule init)
  next
    fix s s'
    assume "cg_safe g s" and "cg_step E g t s = Inr (Next s')"
    then show "cg_safe g s'" by (rule cg_safe_Next [OF wf])
  next
    fix s :: "'b cg_state"
    assume "cg_safe g s"
    then show "\<exists>x. cg_step E g t s = Inr x" by (rule cg_step_ok [OF wf E])
  qed
  then obtain vis where
    "cg_loop E g t ((replicate ?n False, put ?added c0 True, [c0], 0), r') = Inr vis"
    by blast
  with d r show ?thesis
    by (simp add: ConstraintGraph_visited_def Let_def)
qed

lemma unconstrained_generator_new:
  "NeighborhoodGenerator_new (\<lambda>c. c) unconstrained_model False = Inr unconstrained_generator"
  by (simp add: NeighborhoodGenerator_new_def unconstrained_model_def unconstrained_generator_def
      numeral_eq_Suc)

text \<open>
  Claim C10. For a generator built from a model, an incumbent with one value per
  variable, a target size strictly between 0 and the active count, and an engine that
  draws within the range it is given: if the model has no constraint, the
  Constraint-graph generator fails when it sets up the draw of the start constraint from
  the empty range \<open>[0, -1]\<close>; if the model has at least one constraint, Generate returns
  a model, so no access of the walk is out of range and the walk ends.
\<close>

theorem ConstraintGraph_Generate_total:
  assumes "NeighborhoodGenerator_new UsedVariables model focus = Inr g"
    and "length (solution initial_solution) = length (variables model)"
    and "target_size g difficulty = Inr target"
    and "0 < target" and "target < num_active_vars g"
    and "engine_ok E"
  shows "(constraints model = [] \<longrightarrow>
            ConstraintGraph_Generate E g initial_solution seed difficulty = Inl InvalidRange)
       \<and> (constraints model \<noteq> [] \<longrightarrow>
            (\<exists>m. ConstraintGraph_Generate E g initial_solution seed difficulty = Inr m))"
proof -
  note wf = NeighborhoodGenerator_new_wf [OF assms(1)]
  note mp = NeighborhoodGenerator_new_model [OF assms(1)]
  note c2v = NeighborhoodGenerator_new_c2v [OF assms(1)]
  let ?t = "target"
  from assms(3,4,5) have gen: "ConstraintGraph_Generate E g initial_solution seed difficulty =
      (case ConstraintGraph_visited E g seed ?t of
         Inl e \<Rightarrow> Inl e
       | Inr visited \<Rightarrow> RelaxGivenVariables g initial_solution visited)"
    by (simp add: ConstraintGraph_Generate_def)
  have none: "ConstraintGraph_Generate E g initial_solution seed difficulty = Inl InvalidRange"
    if "constraints model = []"
  proof -
    from that c2v have "ConstraintGraph_visited E g seed ?t = Inl InvalidRange"
      by (simp add: ConstraintGraph_visited_def uniform_int_distribution_def)
    with gen show ?thesis by simp
  qed
  have some: "\<exists>m. ConstraintGraph_Generate E g initial_solution seed difficulty = Inr m"
    if "constraints model \<noteq> []"
  proof -
    from that c2v have "constraint_to_var g \<noteq> []" by simp
    from ConstraintGraph_visited_ok [OF wf assms(6) this] obtain vis where
      v: "ConstraintGraph_visited E g seed ?t = Inr vis" by blast
    from ConstraintGraph_visited_reachable [OF wf assms(4) v]
    have len: "length vis = length (variables (model_proto g))" by blast
    let ?pool = "if focus_on_decision_variables g then decision_variables g
                 else map int [0..<length (variables (model_proto g))]"
    let ?fixed = "filter (\<lambda>i. \<not> elt vis i) ?pool"
    have f: "fixed_variables_of g vis = Inr ?fixed"
      by (rule fixed_variables_of_eq [OF wf len])
    have "\<forall>i\<in>set ?fixed. in_range (variables model) i"
    proof
      fix i assume "i \<in> set ?fixed"
      then have "i \<in> set ?pool" by simp
      from pool_in_range [OF wf _ this, of "variables model"] mp
      show "in_range (variables model) i" by simp
    qed
    from FixGivenPosition_ok [OF assms(2) this] obtain m where
      "FixGivenPosition initial_solution ?fixed model = Inr m" by blast
    with gen v f mp show ?thesis
      by (simp add: RelaxGivenVariables_def)
  qed
  from none some show ?thesis by blast
qed

theorem ConstraintGraph_Generate_total_witness:
  "NeighborhoodGenerator_new (\<lambda>c. c) scenario_model False = Inr scenario_generator
   \<and> length (solution scenario_solution) = length (variables scenario_model)
   \<and> target_size scenario_generator (round_double 0.4) = Inr 2
   \<and> 2 < num_active_vars scenario_generator
   \<and> engine_ok counting_engine
   \<and> constraints scenario_model \<noteq> []
   \<and> (\<exists>m. ConstraintGraph_Generate counting_engine scenario_generator scenario_solution 2
             (round_double 0.4) = Inr m)
   \<and> NeighborhoodGenerator_new (\<lambda>c. c) unconstrained_model False = Inr unconstrained_generator
   \<and> target_size unconstrained_generator 0.5 = Inr 1
   \<and> 1 < num_active_vars unconstrained_generator
   \<and> constraints unconstrained_model = []
   \<and> ConstraintGraph_Generate counting_engine unconstrained_generator \<lparr>solution = [4, 5]\<rparr> 2 0.5
       = Inl InvalidRange"
proof -
  have l: "length (solution scenario_solution) = length (variables scenario_model)"
    by (simp add: scenario_solution_def scenario_model_def)
  have n: "num_active_vars scenario_generator = 5"
    by (simp add: num_active_vars_def scenario_generator_def scenario_model_def)
  have t: "target_size scenario_generator (round_double 0.4) = Inr 2"
    unfolding double_04 using double_04_times_5 by (simp add: target_size_def n)
  have t0: "(0::int) < 2" and t1: "2 < num_active_vars scenario_generator"
    using n by simp_all
  have c: "constraints scenario_model \<noteq> []"
    by (simp add: scenario_model_def)
  from ConstraintGraph_Generate_total [OF scenario_generator_new l t t0 t1
      engine_ok_counting_engine, of 2] c
  have 1: "\<exists>m. ConstraintGraph_Generate counting_engine scenario_generator scenario_solution
       2 (round_double 0.4) = Inr m"
    by blast
  have l': "length (solution \<lparr>solution = [4, 5]\<rparr>) = length (variables unconstrained_model)"
    by (simp add: unconstrained_model_def)
  have n': "num_active_vars unconstrained_generator = 2"
    by (simp add: num_active_vars_def unconstrained_generator_def unconstrained_model_def)
  have t': "target_size unconstrained_generator 0.5 = Inr 1"
    using round_double_1 by (simp add: target_size_def n')
  have t0': "(0::int) < 1" and t1': "1 < num_active_vars unconstrained_generator"
    using n' by simp_all
  have c': "constraints unconstrained_model = []"
    by (simp add: unconstrained_model_def)
  from ConstraintGraph_Generate_total [OF unconstrained_generator_new l' t' t0' t1'
      engine_ok_counting_engine, of 2] c'
  have 2: "ConstraintGraph_Generate counting_engine unconstrained_generator
      \<lparr>solution = [4, 5]\<rparr> 2 0.5 = Inl InvalidRange"
    by blast
  from scenario_generator_new l t t1 engine_ok_counting_engine c 1
    unconstrained_generator_new t' t1' c' 2
  show ?thesis by blast
qed

section \<open>The relaxed and the fixed variables of every generator\<close>

lemma mark_variables_length:
  "mark_variables rel used = Inr used' \<Longrightarrow> length used' = length used"
  by (induction rel arbitrary: used) (auto split: if_splits)

lemma Simple_fixed_variables_props:
  assumes wf: "wf_generator g" and d: "0 \<le> difficulty"
    and f: "Simple_fixed_variables E g seed difficulty = Inr fixed"
  shows "distinct fixed
       \<and> set fixed \<subseteq> set (if focus_on_decision_variables g then decision_variables g
                           else map int [0..<length (variables (model_proto g))])"
proof -
  let ?pool = "if focus_on_decision_variables g then decision_variables g
               else map int [0..<length (variables (model_proto g))]"
  from f obtain ys r' t where
    sh: "shuffle E ?pool (seed_engine E seed) = Inr (ys, r')"
    and nw: "narrow_int \<lceil>round_double (round_double (1 - difficulty)
                                         * round_double (real (length ys)))\<rceil> = Inr t"
    and rs: "resize ys t = Inr fixed"
    by (cases "focus_on_decision_variables g")
      (auto simp: Simple_fixed_variables_def Let_def split: sum.splits prod.splits)
  let ?t = "t"
  from narrow_int_Inr [OF nw] have tv:
    "t = \<lceil>round_double (round_double (1 - difficulty) * round_double (real (length ys)))\<rceil>"
    and tb: "t \<le> 2147483647"
    by simp_all
  have le: "?t \<le> int (length ys)"
  proof (cases "length ys < 2 ^ 53")
    case True
    let ?a = "round_double (1 - difficulty)"
    from d have a: "?a \<le> 1" by (simp add: round_double_le_1)
    have "round_double (?a * real (length ys)) \<le> real (length ys)"
    proof (cases "0 < ?a * real (length ys)")
      case pos: True
      from a have "?a * real (length ys) \<le> 1 * real (length ys)"
        by (intro mult_right_mono) simp_all
      then have "?a * real (length ys) \<le> real (length ys)" by simp
      from round_double_le_nat [OF pos this True] show ?thesis .
    next
      case False
      then have "?a * real (length ys) \<le> 0" by simp
      from round_double_nonpos [OF this] show ?thesis by simp
    qed
    then show ?thesis
      unfolding tv round_double_of_nat [OF True] by (simp add: ceiling_le_iff)
  next
    case False
    then have "(2::nat) ^ 53 \<le> length ys" by simp
    then have "int (2 ^ 53) \<le> int (length ys)" by (simp only: of_nat_le_iff)
    with tb show ?thesis by simp
  qed
  from rs have "0 \<le> ?t" by (auto simp: resize_def split: if_splits)
  from resize_take [OF this le] rs have fx: "fixed = take (nat ?t) ys" by simp
  from shuffle_mset [OF sh] have ms: "mset ys = mset ?pool" .
  have "distinct ?pool"
    using wf_generatorD(3) [OF wf] by (simp add: distinct_map)
  with ms have "distinct ys" by (metis distinct_count_atmost_1 set_mset_mset count_mset)
  moreover from ms have "set ys = set ?pool" by (metis set_mset_mset)
  ultimately show ?thesis
    using set_take_subset [of "nat ?t" ys] unfolding fx by simp
qed

lemma complement_count:
  assumes "distinct fixed" and "\<forall>i\<in>set fixed. in_range xs i"
  shows "length (filter (\<lambda>i. i \<notin> set fixed) (map int [0..<length xs])) + length fixed
     = length xs"
proof -
  let ?all = "map int [0..<length xs]"
  have dall: "distinct ?all" by (simp add: distinct_map)
  from assms(2) have sub: "set fixed \<subseteq> set ?all"
    unfolding set_upt_in_range by blast
  have "length (filter (\<lambda>i. i \<in> set fixed) ?all) = card (set (filter (\<lambda>i. i \<in> set fixed) ?all))"
    using dall by (simp only: distinct_card distinct_filter)
  also from sub have "set (filter (\<lambda>i. i \<in> set fixed) ?all) = set fixed" by auto
  also from assms(1) have "card (set fixed) = length fixed" by (rule distinct_card)
  finally have "length (filter (\<lambda>i. i \<in> set fixed) ?all) = length fixed" .
  with sum_length_filter_compl [of "\<lambda>i. i \<in> set fixed" ?all] show ?thesis by simp
qed

text \<open>Claim C1 as stated fails under focus: a run of the Variable-graph generator on
  the model with three variables, two of them decision variables, relaxes the variable 1
  and fixes the variable 2; the variable 0 is in neither set, and the sizes sum to 2.\<close>

theorem relaxed_fixed_sizes_counterexample:
  "NeighborhoodGenerator_new (\<lambda>c. c) focus_model True = Inr focus_generator
   \<and> length (solution focus_solution) = length (variables focus_model)
   \<and> target_size focus_generator 0.5 = Inr 1
   \<and> VariableGraph_relaxed counting_engine focus_generator 0 1 = Inr [1]
   \<and> mark_variables [1] (replicate (length (variables focus_model)) False)
       = Inr [False, True, False]
   \<and> fixed_variables_of focus_generator [False, True, False] = Inr [2]
   \<and> length (filter (\<lambda>b. b) [False, True, False]) + length [2 :: int]
       \<noteq> length (variables focus_model)"
proof -
  have t: "target_size focus_generator 0.5 = Inr 1"
    using round_double_1 by (simp add: target_size_def num_active_vars_def focus_generator_def)
  have r: "VariableGraph_relaxed counting_engine focus_generator 0 1 = Inr [1]"
    by code_simp
  have m: "mark_variables [1] (replicate (length (variables focus_model)) False)
      = Inr [False, True, False]"
    by (simp add: focus_model_def in_range_def put_def numeral_eq_Suc)
  have f: "fixed_variables_of focus_generator [False, True, False] = Inr [2]"
    by (simp add: fixed_variables_of_def focus_generator_def in_range_def elt_def numeral_eq_Suc)
  have l: "length (solution focus_solution) = length (variables focus_model)"
    by (simp add: focus_solution_def focus_model_def)
  from focus_generator_new t r m f l show ?thesis
    by (simp add: focus_model_def)
qed

text \<open>
  Claim C1, amended. For every generator built from a model and every relaxed mask with
  one entry per variable, the fixed variables that RelaxGivenVariables computes are
  pairwise distinct and none of them is relaxed. With focus off, the number of relaxed
  variables and the number of fixed variables sum to the model's variable count. With
  focus on, the fixed variables are exactly the decision variables that are not relaxed:
  a variable that is neither relaxed nor a decision variable is in neither set. The
  masks of the Variable-graph and of the Constraint-graph generator have one entry per
  variable. The Simple generator, for a difficulty that is not negative, fixes pairwise
  distinct variables of the model, and these and the remaining variables number the
  model's variable count.
\<close>

theorem relaxed_fixed_sizes:
  assumes "NeighborhoodGenerator_new UsedVariables model focus = Inr g"
    and "length relaxed = length (variables model)"
  shows "(\<exists>fixed. fixed_variables_of g relaxed = Inr fixed
           \<and> distinct fixed
           \<and> (\<forall>i\<in>set fixed. in_range relaxed i \<and> \<not> elt relaxed i)
           \<and> (\<not> focus_on_decision_variables g \<longrightarrow>
                 length (filter (\<lambda>b. b) relaxed) + length fixed = length (variables model))
           \<and> (focus_on_decision_variables g \<longrightarrow>
                 fixed = filter (\<lambda>i. \<not> elt relaxed i) (decision_variables g)))
       \<and> (VariableGraph_relaxed E g seed target = Inr relaxed_variables
            \<and> mark_variables relaxed_variables (replicate (length (variables model)) False)
                = Inr used_variables
            \<longrightarrow> length used_variables = length (variables model))
       \<and> (0 < target \<and> ConstraintGraph_visited E g seed target = Inr visited_variables
            \<longrightarrow> length visited_variables = length (variables model))
       \<and> (0 \<le> difficulty \<and> Simple_fixed_variables E g seed difficulty = Inr fixed_variables
            \<longrightarrow> distinct fixed_variables
              \<and> (\<forall>i\<in>set fixed_variables. in_range (variables model) i)
              \<and> length (filter (\<lambda>i. i \<notin> set fixed_variables)
                          (map int [0..<length (variables model)]))
                  + length fixed_variables = length (variables model))"
proof -
  note wf = NeighborhoodGenerator_new_wf [OF assms(1)]
  note mp = NeighborhoodGenerator_new_model [OF assms(1)]
  let ?pool = "if focus_on_decision_variables g then decision_variables g
               else map int [0..<length (variables (model_proto g))]"
  let ?fixed = "filter (\<lambda>i. \<not> elt relaxed i) ?pool"
  from assms(2) mp have len: "length relaxed = length (variables (model_proto g))" by simp
  have eq: "fixed_variables_of g relaxed = Inr ?fixed"
    by (rule fixed_variables_of_eq [OF wf len])
  have "distinct ?pool"
    using wf_generatorD(3) [OF wf] by (simp add: distinct_map)
  then have d: "distinct ?fixed" by simp
  have r: "\<forall>i\<in>set ?fixed. in_range relaxed i \<and> \<not> elt relaxed i"
  proof
    fix i assume "i \<in> set ?fixed"
    then have "i \<in> set ?pool" and "\<not> elt relaxed i" by simp_all
    with pool_in_range [OF wf len, of i] show "in_range relaxed i \<and> \<not> elt relaxed i"
      by blast
  qed
  have s: "length (filter (\<lambda>b. b) relaxed) + length ?fixed = length (variables model)"
    if "\<not> focus_on_decision_variables g"
  proof -
    from that len have "length ?fixed = length (filter (\<lambda>b. \<not> b) relaxed)"
      using filter_unrelaxed_upt [of relaxed] by simp
    with sum_length_filter_compl [of "\<lambda>b. b" relaxed] assms(2) show ?thesis by simp
  qed
  have f: "?fixed = filter (\<lambda>i. \<not> elt relaxed i) (decision_variables g)"
    if "focus_on_decision_variables g"
    using that by simp
  from eq d r s f have 1: "\<exists>fixed. fixed_variables_of g relaxed = Inr fixed
           \<and> distinct fixed
           \<and> (\<forall>i\<in>set fixed. in_range relaxed i \<and> \<not> elt relaxed i)
           \<and> (\<not> focus_on_decision_variables g \<longrightarrow>
                 length (filter (\<lambda>b. b) relaxed) + length fixed = length (variables model))
           \<and> (focus_on_decision_variables g \<longrightarrow>
                 fixed = filter (\<lambda>i. \<not> elt relaxed i) (decision_variables g))"
    by blast
  have 2: "length used_variables = length (variables model)"
    if "mark_variables relaxed_variables (replicate (length (variables model)) False)
          = Inr used_variables"
    using mark_variables_length [OF that] by simp
  have 3: "length visited_variables = length (variables model)"
    if "0 < target" and "ConstraintGraph_visited E g seed target = Inr visited_variables"
    using ConstraintGraph_visited_reachable [OF wf that] mp by auto
  have 4: "distinct fixed_variables
              \<and> (\<forall>i\<in>set fixed_variables. in_range (variables model) i)
              \<and> length (filter (\<lambda>i. i \<notin> set fixed_variables)
                          (map int [0..<length (variables model)]))
                  + length fixed_variables = length (variables model)"
    if "0 \<le> difficulty" and "Simple_fixed_variables E g seed difficulty = Inr fixed_variables"
  proof -
    from Simple_fixed_variables_props [OF wf that]
    have dist: "distinct fixed_variables" and sub: "set fixed_variables \<subseteq> set ?pool"
      by blast+
    have rng: "\<forall>i\<in>set fixed_variables. in_range (variables model) i"
    proof
      fix i assume "i \<in> set fixed_variables"
      with sub have "i \<in> set ?pool" by blast
      from pool_in_range [OF wf _ this, of "variables model"] mp
      show "in_range (variables model) i" by simp
    qed
    from complement_count [OF dist rng] dist rng show ?thesis by blast
  qed
  from 1 2 3 4 show ?thesis by blast
qed

theorem relaxed_fixed_sizes_witness:
  "NeighborhoodGenerator_new (\<lambda>c. c) scenario_model False = Inr scenario_generator
   \<and> length [True, True, False, False, False] = length (variables scenario_model)
   \<and> \<not> focus_on_decision_variables scenario_generator
   \<and> fixed_variables_of scenario_generator [True, True, False, False, False] = Inr [2, 3, 4]
   \<and> length (filter (\<lambda>b. b) [True, True, False, False, False]) + length [2 :: int, 3, 4]
       = length (variables scenario_model)
   \<and> VariableGraph_relaxed counting_engine scenario_generator 0 2 = Inr [0, 1]
   \<and> mark_variables [0, 1] (replicate (length (variables scenario_model)) False)
       = Inr [True, True, False, False, False]
   \<and> (0::int) < 2
   \<and> ConstraintGraph_visited counting_engine scenario_generator 0 2
       = Inr [True, True, False, False, False]
   \<and> 0 \<le> round_double 0.4
   \<and> Simple_fixed_variables counting_engine scenario_generator 0 (round_double 0.4)
       = Inr [1, 2, 3]
   \<and> length (filter (\<lambda>i. i \<notin> set [1, 2, 3]) (map int [0..<length (variables scenario_model)]))
       + length [1 :: int, 2, 3] = length (variables scenario_model)
   \<and> NeighborhoodGenerator_new (\<lambda>c. c) focus_model True = Inr focus_generator
   \<and> length [False, True, False] = length (variables focus_model)
   \<and> focus_on_decision_variables focus_generator
   \<and> fixed_variables_of focus_generator [False, True, False]
       = Inr (filter (\<lambda>i. \<not> elt [False, True, False] i) (decision_variables focus_generator))
   \<and> filter (\<lambda>i. \<not> elt [False, True, False] i) (decision_variables focus_generator) = [2]"
proof -
  let ?mask = "[True, True, False, False, False]"
  have h: "length ?mask = length (variables scenario_model)"
    by (simp add: scenario_model_def)
  have f: "\<not> focus_on_decision_variables scenario_generator"
    by (simp add: scenario_generator_def)
  have e: "fixed_variables_of scenario_generator ?mask = Inr [2, 3, 4]"
    by (simp add: fixed_variables_of_def scenario_generator_def scenario_model_def
        in_range_def elt_def upt_rec numeral_eq_Suc)
  have r: "VariableGraph_relaxed counting_engine scenario_generator 0 2 = Inr [0, 1]"
    by code_simp
  have m: "mark_variables [0, 1] (replicate (length (variables scenario_model)) False)
      = Inr ?mask"
    by (simp add: scenario_model_def in_range_def put_def numeral_eq_Suc)
  have v: "ConstraintGraph_visited counting_engine scenario_generator 0 2 = Inr ?mask"
    by code_simp
  note sf = Simple_fixed_scenario
  have t: "(0::int) < 2" by simp
  have d: "0 \<le> round_double 0.4" unfolding double_04 by simp
  note a = relaxed_fixed_sizes [OF scenario_generator_new h, of counting_engine 0 2 "[0, 1]"
      ?mask ?mask "round_double 0.4" "[1, 2, 3]"]
  from a e f have 1: "length (filter (\<lambda>b. b) ?mask) + length [2 :: int, 3, 4]
       = length (variables scenario_model)"
    by auto
  from a sf d have 2:
    "length (filter (\<lambda>i. i \<notin> set [1, 2, 3]) (map int [0..<length (variables scenario_model)]))
       + length [1 :: int, 2, 3] = length (variables scenario_model)"
    by blast
  have h': "length [False, True, False] = length (variables focus_model)"
    by (simp add: focus_model_def)
  have f': "focus_on_decision_variables focus_generator"
    by (simp add: focus_generator_def)
  from relaxed_fixed_sizes [OF focus_generator_new h', of counting_engine 0 1 "[1]"
      "[False, True, False]" "[False, True, False]" 0 "[]"] f'
  have 3: "fixed_variables_of focus_generator [False, True, False]
       = Inr (filter (\<lambda>i. \<not> elt [False, True, False] i) (decision_variables focus_generator))"
    by auto
  have 4: "filter (\<lambda>i. \<not> elt [False, True, False] i) (decision_variables focus_generator) = [2]"
    by (simp add: focus_generator_def elt_def)
  from scenario_generator_new h f e 1 r m t v d sf 2 focus_generator_new h' f' 3 4
  show ?thesis by blast
qed

end
